theory Spec2Isabelle
  imports Main
begin

section \<open>Ground actions and the planning problem\<close>

text \<open>
  The planning graph of \<^verbatim>\<open>my_planning_graph.py\<close> consumes ground STRIPS actions and a
  problem object from \<^verbatim>\<open>aimacode\<close>. Only the attributes the graph reads are modelled:
  an action's name, its arguments and its four literal lists; a problem's action list,
  its fluent vocabulary \<^verbatim>\<open>state_map\<close> and its goal. Expressions are compared by
  structural equality, so a string stands for each of them.
\<close>

type_synonym expr = string

record Action =
  name :: expr
  args :: "expr list"
  precond_pos :: "expr list"
  precond_neg :: "expr list"
  effect_add :: "expr list"
  effect_rem :: "expr list"

record Problem =
  actions_list :: "Action list"
  state_map :: "expr list"
  goal :: "expr list"

section \<open>Nodes, references and the object store\<close>

text \<open>
  Python nodes are mutable objects that are shared by reference: a node that sits in a
  level is the very object whose \<^verbatim>\<open>mutex\<close> set \<^verbatim>\<open>mutexify\<close> extends, while a node built
  afresh from the same literal is a different object that merely compares equal. The
  model keeps every object in a store (a list, the reference being the index; a
  constructor call appends) and holds references everywhere the code holds objects.

  A Python \<^verbatim>\<open>set\<close> of nodes is a list of references that holds no two nodes equal under
  \<^verbatim>\<open>__eq__\<close>. \<^verbatim>\<open>add\<close> keeps the element that is already there, as Python does.
  Iterating a set visits the elements in the order of their insertion: Python leaves the
  order to the hash values, and insertion order is one of the orders it can produce.
\<close>

type_synonym ref = nat

record PgNode =
  parents :: "ref list"
  children :: "ref list"
  mutex :: "ref list"

record PgNode_s = PgNode +
  symbol :: expr
  is_pos :: bool

record PgNode_a = PgNode +
  action :: Action
  prenodes :: "ref list"
  effnodes :: "ref list"
  is_persistent :: bool

text \<open>\<^verbatim>\<open>PgNode_s.__eq__\<close> compares polarity and symbol.\<close>

definition s_key :: "PgNode_s \<Rightarrow> bool \<times> expr" where
  "s_key n = (is_pos n, symbol n)"

text \<open>\<^verbatim>\<open>PgNode_a.__eq__\<close> compares the persistence flag, the action name and its arguments.\<close>

definition a_key :: "PgNode_a \<Rightarrow> bool \<times> expr \<times> expr list" where
  "a_key n = (is_persistent n, name (action n), args (action n))"

text \<open>\<^verbatim>\<open>x in s\<close> and \<^verbatim>\<open>s.add(x)\<close> for a set \<open>s\<close> of references into the store \<open>st\<close>.\<close>

definition set_in :: "('n \<Rightarrow> 'k) \<Rightarrow> 'n list \<Rightarrow> ref \<Rightarrow> ref list \<Rightarrow> bool" where
  "set_in key st x s = (\<exists>y \<in> set s. key (st ! y) = key (st ! x))"

definition set_add :: "('n \<Rightarrow> 'k) \<Rightarrow> 'n list \<Rightarrow> ref list \<Rightarrow> ref \<Rightarrow> ref list" where
  "set_add key st s x = (if set_in key st x s then s else s @ [x])"

text \<open>\<^verbatim>\<open>s.update(t)\<close> adds the elements of \<open>t\<close> one by one.\<close>

definition set_update :: "('n \<Rightarrow> 'k) \<Rightarrow> 'n list \<Rightarrow> ref list \<Rightarrow> ref list \<Rightarrow> ref list" where
  "set_update key st s t = foldl (set_add key st) s t"

text \<open>\<^verbatim>\<open>s == t\<close> on sets.\<close>

definition set_eq :: "('n \<Rightarrow> 'k) \<Rightarrow> 'n list \<Rightarrow> ref list \<Rightarrow> ref list \<Rightarrow> bool" where
  "set_eq key st s t = ((\<forall>x \<in> set s. set_in key st x t) \<and> (\<forall>y \<in> set t. set_in key st y s))"

text \<open>\<^verbatim>\<open>PgNode_s.__init__\<close>: the three relation sets start empty.\<close>

definition new_PgNode_s :: "expr \<Rightarrow> bool \<Rightarrow> PgNode_s" where
  "new_PgNode_s smb pol =
     \<lparr>parents = [], children = [], mutex = [], symbol = smb, is_pos = pol\<rparr>"

text \<open>
  The loops of \<^verbatim>\<open>precond_s_nodes\<close> and \<^verbatim>\<open>effect_s_nodes\<close>: one fresh literal node for
  each expression of the list, added to the set \<open>nodes\<close>.
\<close>

fun add_s_nodes :: "PgNode_s list \<Rightarrow> ref list \<Rightarrow> expr list \<Rightarrow> bool \<Rightarrow> PgNode_s list \<times> ref list" where
  "add_s_nodes st nodes [] pol = (st, nodes)"
| "add_s_nodes st nodes (p # ps) pol =
     (let st' = st @ [new_PgNode_s p pol]
      in add_s_nodes st' (set_add s_key st' nodes (length st)) ps pol)"

definition precond_s_nodes :: "PgNode_s list \<Rightarrow> Action \<Rightarrow> PgNode_s list \<times> ref list" where
  "precond_s_nodes st act =
     (case add_s_nodes st [] (precond_pos act) True of
        (st1, nodes) \<Rightarrow> add_s_nodes st1 nodes (precond_neg act) False)"

definition effect_s_nodes :: "PgNode_s list \<Rightarrow> Action \<Rightarrow> PgNode_s list \<times> ref list" where
  "effect_s_nodes st act =
     (case add_s_nodes st [] (effect_add act) True of
        (st1, nodes) \<Rightarrow> add_s_nodes st1 nodes (effect_rem act) False)"

text \<open>
  \<^verbatim>\<open>PgNode_a.__init__\<close>: the possible parents and children are built as fresh literal
  nodes, and the node is persistent iff the two sets are equal.
\<close>

definition new_PgNode_a :: "PgNode_s list \<Rightarrow> Action \<Rightarrow> PgNode_s list \<times> PgNode_a" where
  "new_PgNode_a st act =
     (case precond_s_nodes st act of (st1, pre) \<Rightarrow>
      case effect_s_nodes st1 act of (st2, eff) \<Rightarrow>
        (st2, \<lparr>parents = [], children = [], mutex = [], action = act,
               prenodes = pre, effnodes = eff,
               is_persistent = set_eq s_key st2 pre eff\<rparr>))"

text \<open>\<^verbatim>\<open>PgNode.is_mutex\<close>: \<^verbatim>\<open>other in self.mutex\<close>.\<close>

definition is_mutex :: "('z PgNode_scheme \<Rightarrow> 'k) \<Rightarrow> 'z PgNode_scheme list \<Rightarrow> ref \<Rightarrow> ref \<Rightarrow> bool" where
  "is_mutex key st self other = set_in key st other (mutex (st ! self))"

text \<open>
  \<^verbatim>\<open>mutexify\<close>: each node is added to the other's mutex set. The two nodes come from one
  store, so they are of one kind and the \<^verbatim>\<open>TypeError\<close> branch cannot be taken.
\<close>

definition mutexify :: "('z PgNode_scheme \<Rightarrow> 'k) \<Rightarrow> 'z PgNode_scheme list \<Rightarrow> ref \<Rightarrow> ref \<Rightarrow> 'z PgNode_scheme list" where
  "mutexify key st node1 node2 =
     (let st1 = st[node1 := (st ! node1)\<lparr>mutex := set_add key st (mutex (st ! node1)) node2\<rparr>]
      in st1[node2 := (st1 ! node2)\<lparr>mutex := set_add key st1 (mutex (st1 ! node2)) node1\<rparr>])"

section \<open>The planning graph\<close>

datatype py_error = IndexError | GraphAlreadyCreated

record PlanningGraph =
  problem :: Problem
  fs_pos :: "expr list"
  fs_neg :: "expr list"
  serial :: bool
  all_actions :: "Action list"
  s_levels :: "ref list list"
  a_levels :: "ref list list"
  goal_states :: "ref list"
  s_store :: "PgNode_s list"
  a_store :: "PgNode_a list"

text \<open>
  A method either returns the graph it has updated or raises; the error comes with the
  graph as the method left it.
\<close>

type_synonym result = "(py_error \<times> PlanningGraph) + PlanningGraph"

subsection \<open>No-op actions\<close>

text \<open>
  \<^verbatim>\<open>noop_actions\<close>: \<^verbatim>\<open>expr("Noop_pos({})".format(fluent))\<close> is the expression with operator
  \<^verbatim>\<open>Noop_pos\<close> and the fluent as its argument.
\<close>

fun noop_actions :: "expr list \<Rightarrow> Action list" where
  "noop_actions [] = []"
| "noop_actions (fluent # literal_list) =
     \<lparr>name = ''Noop_pos'', args = [fluent], precond_pos = [fluent], precond_neg = [],
      effect_add = [fluent], effect_rem = []\<rparr> #
     \<lparr>name = ''Noop_neg'', args = [fluent], precond_pos = [], precond_neg = [fluent],
      effect_add = [], effect_rem = [fluent]\<rparr> #
     noop_actions literal_list"

subsection \<open>Adding an action level\<close>

text \<open>
  The two precondition loops of \<^verbatim>\<open>add_action_level\<close>: a fresh literal node is built for
  each precondition and looked up in the previous literal level; the fresh node, not the
  node of the level, goes into \<^verbatim>\<open>parent_s_nodes\<close>. The loop breaks at the first
  precondition that is missing. The result holds the store, \<^verbatim>\<open>parent_s_nodes\<close> and
  whether every precondition was found.
\<close>

fun check_preconds :: "PgNode_s list \<Rightarrow> ref list \<Rightarrow> ref list \<Rightarrow> expr list \<Rightarrow> bool
    \<Rightarrow> PgNode_s list \<times> ref list \<times> bool" where
  "check_preconds st previous_s parent_s_nodes [] pol = (st, parent_s_nodes, True)"
| "check_preconds st previous_s parent_s_nodes (p # ps) pol =
     (let st' = st @ [new_PgNode_s p pol]
      in if \<not> set_in s_key st' (length st) previous_s then (st', parent_s_nodes, False)
         else check_preconds st' previous_s (set_add s_key st' parent_s_nodes (length st)) ps pol)"

text \<open>
  \<^verbatim>\<open>for s_node in self.s_levels[level]: if s_node in parent_s_nodes:
  s_node.children.add(a_node)\<close>
\<close>

fun link_children :: "PgNode_s list \<Rightarrow> PgNode_a list \<Rightarrow> ref list \<Rightarrow> ref list \<Rightarrow> ref \<Rightarrow> PgNode_s list" where
  "link_children st ast [] parent_s_nodes a_node = st"
| "link_children st ast (s_node # rest) parent_s_nodes a_node =
     link_children
       (if set_in s_key st s_node parent_s_nodes
        then st[s_node := (st ! s_node)\<lparr>children := set_add a_key ast (children (st ! s_node)) a_node\<rparr>]
        else st)
       ast rest parent_s_nodes a_node"

text \<open>The body of the loop over \<^verbatim>\<open>self.all_actions\<close>, for one action.\<close>

definition add_action :: "PlanningGraph \<Rightarrow> nat \<Rightarrow> ref list \<Rightarrow> Action \<Rightarrow> result" where
  "add_action g level previous_s act =
     (case check_preconds (s_store g) previous_s [] (precond_pos act) True of
        (st1, ps1, ok1) \<Rightarrow>
     case (if ok1 then check_preconds st1 previous_s ps1 (precond_neg act) False
           else (st1, ps1, False)) of
        (st2, parent_s_nodes, add_action) \<Rightarrow>
     if add_action then
       (case new_PgNode_a st2 act of (st3, node) \<Rightarrow>
          let a_node = length (a_store g);
              ast = a_store g @ [node];
              st4 = link_children st3 ast (s_levels g ! level) parent_s_nodes a_node;
              ast' = ast[a_node := (ast ! a_node)
                         \<lparr>parents := set_update s_key st4 (parents (ast ! a_node)) parent_s_nodes\<rparr>];
              g' = g\<lparr>s_store := st4, a_store := ast'\<rparr>
          in if level < length (a_levels g')
             then Inr (g'\<lparr>a_levels := (a_levels g')
                          [level := set_add a_key ast' (a_levels g' ! level) a_node]\<rparr>)
             else Inl (IndexError, g'))
     else Inr (g\<lparr>s_store := st2\<rparr>))"

fun add_actions :: "PlanningGraph \<Rightarrow> nat \<Rightarrow> ref list \<Rightarrow> Action list \<Rightarrow> result" where
  "add_actions g level previous_s [] = Inr g"
| "add_actions g level previous_s (act # acts) =
     (case add_action g level previous_s act of
        Inl e \<Rightarrow> Inl e
      | Inr g' \<Rightarrow> add_actions g' level previous_s acts)"

text \<open>
  \<^verbatim>\<open>add_action_level\<close>: an empty set is appended to \<^verbatim>\<open>a_levels\<close>, then
  \<^verbatim>\<open>self.s_levels[level]\<close> is read (an \<^verbatim>\<open>IndexError\<close> when the level does not exist).
\<close>

definition add_action_level :: "PlanningGraph \<Rightarrow> nat \<Rightarrow> result" where
  "add_action_level g level =
     (let g1 = g\<lparr>a_levels := a_levels g @ [[]]\<rparr>
      in if level < length (s_levels g1)
         then add_actions g1 level (s_levels g1 ! level) (all_actions g1)
         else Inl (IndexError, g1))"

subsection \<open>Adding a literal level\<close>

text \<open>
  The inner loop of \<^verbatim>\<open>add_literal_level\<close> over \<^verbatim>\<open>pre_a_node.effnodes\<close>: the effect node
  of this action node takes the action node as parent, the action node takes it as child,
  and the effect node is added to the level (where an equal node that is already there
  stays, so the effect node is then left out of the level).
\<close>

fun add_effnodes :: "PlanningGraph \<Rightarrow> nat \<Rightarrow> ref \<Rightarrow> ref list \<Rightarrow> result" where
  "add_effnodes g level pre_a_node [] = Inr g"
| "add_effnodes g level pre_a_node (effnode # rest) =
     (let st = s_store g; ast = a_store g;
          st' = st[effnode := (st ! effnode)
                     \<lparr>parents := set_add a_key ast (parents (st ! effnode)) pre_a_node\<rparr>];
          ast' = ast[pre_a_node := (ast ! pre_a_node)
                     \<lparr>children := set_add s_key st' (children (ast ! pre_a_node)) effnode\<rparr>];
          g' = g\<lparr>s_store := st', a_store := ast'\<rparr>
      in if level < length (s_levels g')
         then add_effnodes
                (g'\<lparr>s_levels := (s_levels g')
                       [level := set_add s_key st' (s_levels g' ! level) effnode]\<rparr>)
                level pre_a_node rest
         else Inl (IndexError, g'))"

fun add_literals :: "PlanningGraph \<Rightarrow> nat \<Rightarrow> ref list \<Rightarrow> result" where
  "add_literals g level [] = Inr g"
| "add_literals g level (pre_a_node # rest) =
     (case add_effnodes g level pre_a_node (effnodes (a_store g ! pre_a_node)) of
        Inl e \<Rightarrow> Inl e
      | Inr g' \<Rightarrow> add_literals g' level rest)"

text \<open>Python indexing of a list: a negative index counts from the end.\<close>

definition py_index :: "'a list \<Rightarrow> int \<Rightarrow> 'a option" where
  "py_index xs i =
     (let n = int (length xs); j = (if i < 0 then n + i else i)
      in if 0 \<le> j \<and> j < n then Some (xs ! nat j) else None)"

definition add_literal_level :: "PlanningGraph \<Rightarrow> nat \<Rightarrow> result" where
  "add_literal_level g level =
     (let g1 = g\<lparr>s_levels := s_levels g @ [[]]\<rparr>
      in case py_index (a_levels g1) (int level - 1) of
           None \<Rightarrow> Inl (IndexError, g1)
         | Some pre_a_level \<Rightarrow> add_literals g1 level pre_a_level)"

subsection \<open>Action mutexes\<close>

definition serialize_actions :: "PlanningGraph \<Rightarrow> ref \<Rightarrow> ref \<Rightarrow> bool" where
  "serialize_actions g node_a1 node_a2 =
     (if \<not> serial g then False
      else if is_persistent (a_store g ! node_a1) \<or> is_persistent (a_store g ! node_a2) then False
      else True)"

definition inconsistent_effects_mutex :: "PlanningGraph \<Rightarrow> ref \<Rightarrow> ref \<Rightarrow> bool" where
  "inconsistent_effects_mutex g node_a1 node_a2 =
     (let a1 = action (a_store g ! node_a1); a2 = action (a_store g ! node_a2)
      in if \<exists>e \<in> set (effect_add a1). e \<in> set (effect_rem a2) then True
         else if \<exists>e \<in> set (effect_rem a1). e \<in> set (effect_add a2) then True
         else False)"

definition interference_mutex :: "PlanningGraph \<Rightarrow> ref \<Rightarrow> ref \<Rightarrow> bool" where
  "interference_mutex g node_a1 node_a2 =
     (let a1 = action (a_store g ! node_a1); a2 = action (a_store g ! node_a2)
      in if \<exists>e \<in> set (effect_add a1). e \<in> set (precond_neg a2) then True
         else if \<exists>e \<in> set (effect_rem a1). e \<in> set (precond_pos a2) then True
         else if \<exists>p \<in> set (precond_pos a1). p \<in> set (effect_rem a2) then True
         else if \<exists>p \<in> set (precond_neg a1). p \<in> set (effect_add a2) then True
         else False)"

text \<open>
  \<^verbatim>\<open>competing_needs_mutex\<close>: the first pair of parents for which
  \<^verbatim>\<open>a2_parent_s.is_mutex(a1_parent_s)\<close> holds returns \<^verbatim>\<open>True\<close>.
\<close>

definition competing_needs_mutex :: "PlanningGraph \<Rightarrow> ref \<Rightarrow> ref \<Rightarrow> bool" where
  "competing_needs_mutex g node_a1 node_a2 =
     (\<exists>a1_parent_s \<in> set (parents (a_store g ! node_a1)).
        \<exists>a2_parent_s \<in> set (parents (a_store g ! node_a2)).
          is_mutex s_key (s_store g) a2_parent_s a1_parent_s)"

text \<open>
  The pair loop shared by \<^verbatim>\<open>update_a_mutex\<close> and \<^verbatim>\<open>update_s_mutex\<close>:
  \<^verbatim>\<open>for i, n1 in enumerate(nodelist[:-1]): for n2 in nodelist[i + 1:]:
  if test(n1, n2): mutexify(n1, n2)\<close>.
\<close>

definition mutex_pairs :: "(PlanningGraph \<Rightarrow> ref \<Rightarrow> ref \<Rightarrow> bool) \<Rightarrow> (PlanningGraph \<Rightarrow> ref \<Rightarrow> ref \<Rightarrow> PlanningGraph)
    \<Rightarrow> ref list \<Rightarrow> PlanningGraph \<Rightarrow> PlanningGraph" where
  "mutex_pairs test mark nodelist g =
     fold (\<lambda>(i, n1) g1.
            fold (\<lambda>n2 g2. if test g2 n1 n2 then mark g2 n1 n2 else g2) (drop (i + 1) nodelist) g1)
          (enumerate 0 (butlast nodelist)) g"

definition update_a_mutex :: "PlanningGraph \<Rightarrow> ref list \<Rightarrow> PlanningGraph" where
  "update_a_mutex g nodeset =
     mutex_pairs
       (\<lambda>g n1 n2. serialize_actions g n1 n2 \<or> inconsistent_effects_mutex g n1 n2 \<or>
                  interference_mutex g n1 n2 \<or> competing_needs_mutex g n1 n2)
       (\<lambda>g n1 n2. g\<lparr>a_store := mutexify a_key (a_store g) n1 n2\<rparr>)
       nodeset g"

subsection \<open>Literal mutexes\<close>

definition negation_mutex :: "PlanningGraph \<Rightarrow> ref \<Rightarrow> ref \<Rightarrow> bool" where
  "negation_mutex g node_s1 node_s2 =
     (if symbol (s_store g ! node_s1) = symbol (s_store g ! node_s2)
      then (if s_key (s_store g ! node_s1) \<noteq> s_key (s_store g ! node_s2) then True else False)
      else False)"

text \<open>
  \<^verbatim>\<open>inconsistent_support_mutex\<close>. The inner loop runs over the parents of the second
  literal with the flag \<^verbatim>\<open>result\<close>; \<open>Inl False\<close> is the \<^verbatim>\<open>return False\<close> in the middle
  of the loops, \<open>Inr result\<close> the flag when the loop runs to its end.
\<close>

fun support_inner :: "PlanningGraph \<Rightarrow> ref \<Rightarrow> ref \<Rightarrow> ref \<Rightarrow> ref list \<Rightarrow> bool \<Rightarrow> bool + bool" where
  "support_inner g node_s1 node_s2 parent_a [] result = Inr result"
| "support_inner g node_s1 node_s2 parent_a (parent_b # rest) result =
     (if is_mutex a_key (a_store g) parent_a parent_b then
        (if set_in s_key (s_store g) node_s1 (children (a_store g ! parent_a)) \<and>
            set_in s_key (s_store g) node_s2 (children (a_store g ! parent_a)) \<or>
            set_in s_key (s_store g) node_s1 (children (a_store g ! parent_b)) \<and>
            set_in s_key (s_store g) node_s2 (children (a_store g ! parent_b))
         then Inl False
         else support_inner g node_s1 node_s2 parent_a rest True)
      else support_inner g node_s1 node_s2 parent_a rest result)"

fun support_outer :: "PlanningGraph \<Rightarrow> ref \<Rightarrow> ref \<Rightarrow> ref list \<Rightarrow> bool \<Rightarrow> bool" where
  "support_outer g node_s1 node_s2 [] result = result"
| "support_outer g node_s1 node_s2 (parent_a # rest) result =
     (case support_inner g node_s1 node_s2 parent_a (parents (s_store g ! node_s2)) result of
        Inl r \<Rightarrow> r
      | Inr result' \<Rightarrow> support_outer g node_s1 node_s2 rest result')"

definition inconsistent_support_mutex :: "PlanningGraph \<Rightarrow> ref \<Rightarrow> ref \<Rightarrow> bool" where
  "inconsistent_support_mutex g node_s1 node_s2 =
     support_outer g node_s1 node_s2 (parents (s_store g ! node_s1)) False"

definition update_s_mutex :: "PlanningGraph \<Rightarrow> ref list \<Rightarrow> PlanningGraph" where
  "update_s_mutex g nodeset =
     mutex_pairs
       (\<lambda>g n1 n2. negation_mutex g n1 n2 \<or> inconsistent_support_mutex g n1 n2)
       (\<lambda>g n1 n2. g\<lparr>s_store := mutexify s_key (s_store g) n1 n2\<rparr>)
       nodeset g"

subsection \<open>Building the graph\<close>

text \<open>
  The \<^verbatim>\<open>while not leveled\<close> loop of \<^verbatim>\<open>create_graph\<close>. Nothing in the loop itself bounds
  the number of rounds, so the loop is a partial function: \<open>None\<close> stands for a loop that
  never ends.
\<close>

partial_function (option) level_loop :: "PlanningGraph \<Rightarrow> nat \<Rightarrow> result option" where
  "level_loop g level =
     (case add_action_level g level of
        Inl e \<Rightarrow> Some (Inl e)
      | Inr g1 \<Rightarrow>
          if level < length (a_levels g1) then
            (case add_literal_level (update_a_mutex g1 (a_levels g1 ! level)) (level + 1) of
               Inl e \<Rightarrow> Some (Inl e)
             | Inr g3 \<Rightarrow>
                 if level + 1 < length (s_levels g3) then
                   (let g4 = update_s_mutex g3 (s_levels g3 ! (level + 1))
                    in if set_eq s_key (s_store g4) (s_levels g4 ! (level + 1)) (s_levels g4 ! level)
                       then Some (Inr g4)
                       else level_loop g4 (level + 1))
                 else Some (Inl (IndexError, g3)))
          else Some (Inl (IndexError, g1)))"

declare level_loop.simps [code]

text \<open>
  \<^verbatim>\<open>create_graph\<close>: the guard against a second construction, the initial literal level
  from the positive and the negative fluents of the state, then the loop.
\<close>

definition create_graph :: "PlanningGraph \<Rightarrow> result option" where
  "create_graph g =
     (if length (s_levels g) \<noteq> 0 \<or> length (a_levels g) \<noteq> 0
      then Some (Inl (GraphAlreadyCreated, g))
      else
        (case add_s_nodes (s_store g) [] (fs_pos g) True of (st1, s0) \<Rightarrow>
         case add_s_nodes st1 s0 (fs_neg g) False of (st2, s0') \<Rightarrow>
           level_loop (g\<lparr>s_levels := [s0'], s_store := st2\<rparr>) 0))"

text \<open>
  \<^verbatim>\<open>PlanningGraph.__init__\<close>. The state arrives decoded (\<^verbatim>\<open>decode_state\<close> belongs to
  \<^verbatim>\<open>lp_utils\<close>): \<open>pos\<close> and \<open>neg\<close> are the lists \<^verbatim>\<open>fs.pos\<close> and \<^verbatim>\<open>fs.neg\<close>. The goal
  literals become fresh positive literal nodes once the graph is built.
\<close>

definition new_PlanningGraph :: "Problem \<Rightarrow> expr list \<Rightarrow> expr list \<Rightarrow> bool \<Rightarrow> result option" where
  "new_PlanningGraph pr pos neg serial_planning =
     (case create_graph
             \<lparr>problem = pr, fs_pos = pos, fs_neg = neg, serial = serial_planning,
              all_actions = actions_list pr @ noop_actions (state_map pr),
              s_levels = [], a_levels = [], goal_states = [], s_store = [], a_store = []\<rparr> of
        None \<Rightarrow> None
      | Some (Inl e) \<Rightarrow> Some (Inl e)
      | Some (Inr g) \<Rightarrow>
          (case add_s_nodes (s_store g) [] (goal (problem g)) True of
             (st, nodes) \<Rightarrow>
               Some (Inr (g\<lparr>s_store := st, goal_states := set_update s_key st [] nodes\<rparr>))))"

subsection \<open>The level-sum heuristic\<close>

text \<open>
  The inner loop of \<^verbatim>\<open>h_levelsum\<close>: the index of the first literal level that holds a
  node equal to the goal node, counting from \<open>i\<close>; \<open>None\<close> when the loop ends without
  \<^verbatim>\<open>break\<close>.
\<close>

fun first_level :: "PgNode_s list \<Rightarrow> ref \<Rightarrow> ref list list \<Rightarrow> nat \<Rightarrow> nat option" where
  "first_level st goal_fluent [] i = None"
| "first_level st goal_fluent (s_level # rest) i =
     (if set_in s_key st goal_fluent s_level then Some i
      else first_level st goal_fluent rest (i + 1))"

definition h_levelsum :: "PlanningGraph \<Rightarrow> int" where
  "h_levelsum g =
     fold (\<lambda>goal_fluent level_sum.
             case first_level (s_store g) goal_fluent (s_levels g) 0 of
               Some i \<Rightarrow> level_sum + int i
             | None \<Rightarrow> level_sum)
          (goal_states g) 0"

section \<open>Reading a built graph\<close>

text \<open>
  The node of literal level \<open>level\<close> that stands for a literal, and the node of action
  level \<open>level\<close> that stands for the action of a given name.
\<close>

definition s_node_of :: "PlanningGraph \<Rightarrow> nat \<Rightarrow> bool \<Rightarrow> expr \<Rightarrow> ref option" where
  "s_node_of g level pol smb =
     find (\<lambda>r. s_key (s_store g ! r) = (pol, smb)) (s_levels g ! level)"

definition a_node_of :: "PlanningGraph \<Rightarrow> nat \<Rightarrow> expr \<Rightarrow> ref option" where
  "a_node_of g level n =
     find (\<lambda>r. name (action (a_store g ! r)) = n) (a_levels g ! level)"

text \<open>A goal node that no literal level holds.\<close>

definition absent :: "PlanningGraph \<Rightarrow> ref \<Rightarrow> bool" where
  "absent g x = (\<not> list_ex (set_in s_key (s_store g) x) (s_levels g))"

text \<open>
  What one goal node adds to the level sum: the index of the first literal level that
  holds it, and nothing when the inner loop of \<^verbatim>\<open>h_levelsum\<close> ends without \<^verbatim>\<open>break\<close>.
\<close>

definition level_cost :: "PlanningGraph \<Rightarrow> ref \<Rightarrow> int" where
  "level_cost g x =
     (case first_level (s_store g) x (s_levels g) 0 of Some i \<Rightarrow> int i | None \<Rightarrow> 0)"

section \<open>Example problems\<close>

text \<open>The empty problem: no fluent, no action, no goal.\<close>

definition empty_problem :: Problem where
  "empty_problem = \<lparr>actions_list = [], state_map = [], goal = []\<rparr>"

text \<open>One fluent \<open>G\<close> that is false, no action, and the goal \<open>G\<close>.\<close>

definition stuck_problem :: Problem where
  "stuck_problem = \<lparr>actions_list = [], state_map = [''G''], goal = [''G'']\<rparr>"

text \<open>
  A switch: one fluent \<open>P\<close>, an action that needs \<open>P\<close> and removes it, an action that
  needs \<open>P\<close> false and adds it.
\<close>

definition switch_problem :: Problem where
  "switch_problem =
     \<lparr>actions_list =
        [\<lparr>name = ''Off'', args = [], precond_pos = [''P''], precond_neg = [],
          effect_add = [], effect_rem = [''P'']\<rparr>,
         \<lparr>name = ''On'', args = [], precond_pos = [], precond_neg = [''P''],
          effect_add = [''P''], effect_rem = []\<rparr>],
      state_map = [''P''], goal = [''P'']\<rparr>"

text \<open>
  Two actions without preconditions that both add the fluent \<open>P\<close>, which is false at the
  start. The action list is a parameter, so that both orders of the two can be built.
\<close>

definition twin_problem :: "Action list \<Rightarrow> Problem" where
  "twin_problem acts = \<lparr>actions_list = acts, state_map = [''P''], goal = [''P'']\<rparr>"

definition add_P :: "expr \<Rightarrow> Action" where
  "add_P n = \<lparr>name = n, args = [], precond_pos = [], precond_neg = [],
              effect_add = [''P''], effect_rem = []\<rparr>"

text \<open>
  The fluent \<open>P\<close> holds, \<open>T\<close> removes it, \<open>U\<close> needs \<open>P\<close> and \<open>W\<close> needs \<open>P\<close> false; both add
  \<open>R\<close>. From the second action level on \<open>U\<close> and \<open>W\<close> are both enabled, and they touch
  neither each other's preconditions nor each other's effects.
\<close>

definition needs_problem :: Problem where
  "needs_problem =
     \<lparr>actions_list =
        [\<lparr>name = ''T'', args = [], precond_pos = [''P''], precond_neg = [],
          effect_add = [], effect_rem = [''P'']\<rparr>,
         \<lparr>name = ''U'', args = [], precond_pos = [''P''], precond_neg = [],
          effect_add = [''R''], effect_rem = []\<rparr>,
         \<lparr>name = ''W'', args = [], precond_pos = [], precond_neg = [''P''],
          effect_add = [''R''], effect_rem = []\<rparr>],
      state_map = [''P'', ''R''], goal = [''R'']\<rparr>"

text \<open>
  \<open>A\<close> needs \<open>U\<close> and \<open>B\<close> needs \<open>V\<close>, both add \<open>X\<close>; \<open>C\<close> removes \<open>U\<close> and \<open>D\<close> removes \<open>V\<close>.
  So \<open>C\<close> interferes with \<open>A\<close> only, and \<open>D\<close> with \<open>B\<close> only.
\<close>

definition support_problem :: "Action list \<Rightarrow> Problem" where
  "support_problem acts = \<lparr>actions_list = acts, state_map = [''U'', ''V'', ''X''], goal = [''X'']\<rparr>"

definition act_A :: Action where
  "act_A = \<lparr>name = ''A'', args = [], precond_pos = [''U''], precond_neg = [],
            effect_add = [''X''], effect_rem = []\<rparr>"

definition act_B :: Action where
  "act_B = \<lparr>name = ''B'', args = [], precond_pos = [''V''], precond_neg = [],
            effect_add = [''X''], effect_rem = []\<rparr>"

definition act_C :: Action where
  "act_C = \<lparr>name = ''C'', args = [], precond_pos = [], precond_neg = [],
            effect_add = [], effect_rem = [''U'']\<rparr>"

definition act_D :: Action where
  "act_D = \<lparr>name = ''D'', args = [], precond_pos = [], precond_neg = [],
            effect_add = [], effect_rem = [''V'']\<rparr>"

text \<open>
  Two actions without preconditions, \<open>A1\<close> adds \<open>P\<close> and \<open>A2\<close> adds \<open>Q\<close>: they share no fluent,
  so no rule but the serial one can hold of the two.
\<close>

definition pair_problem :: Problem where
  "pair_problem =
     \<lparr>actions_list =
        [\<lparr>name = ''A1'', args = [], precond_pos = [], precond_neg = [],
          effect_add = [''P''], effect_rem = []\<rparr>,
         \<lparr>name = ''A2'', args = [], precond_pos = [], precond_neg = [],
          effect_add = [''Q''], effect_rem = []\<rparr>],
      state_map = [''P'', ''Q''], goal = [''P'', ''Q'']\<rparr>"

text \<open>
  The graph of this problem, \<open>P\<close> and \<open>Q\<close> false, when \<^verbatim>\<open>create_graph\<close> has built the first
  literal level and enters its loop.
\<close>

definition pair_start :: "bool \<Rightarrow> PlanningGraph" where
  "pair_start serial_planning =
     \<lparr>problem = pair_problem, fs_pos = [], fs_neg = [''P'', ''Q''], serial = serial_planning,
      all_actions = actions_list pair_problem @ noop_actions (state_map pair_problem),
      s_levels = [[0, 1]], a_levels = [], goal_states = [],
      s_store = [new_PgNode_s ''P'' False, new_PgNode_s ''Q'' False], a_store = []\<rparr>"

text \<open>
  A problem whose only action bears the name and the argument of the no-op of \<open>P\<close>, but
  needs and adds \<open>Q\<close>.
\<close>

definition shadow_problem :: Problem where
  "shadow_problem =
     \<lparr>actions_list =
        [\<lparr>name = ''Noop_pos'', args = [''P''], precond_pos = [''Q''], precond_neg = [],
          effect_add = [''Q''], effect_rem = []\<rparr>],
      state_map = [''P'', ''Q''], goal = [''Q'']\<rparr>"

section \<open>Invariants of the construction\<close>

text \<open>
  The predicates of this section are not part of the program: they state what the
  construction keeps true of the store and of the levels, and the proofs below are about
  them.
\<close>

subsection \<open>A level and its mutex sets\<close>

text \<open>
  A level is a Python set: no reference occurs twice and no two of its nodes compare equal.
  Its mutex sets stay inside the level, no node is in its own mutex set, and a node is in
  the mutex set of every node of its own mutex set.
\<close>

definition level_ok :: "('z PgNode_scheme \<Rightarrow> 'k) \<Rightarrow> 'z PgNode_scheme list \<Rightarrow> ref list \<Rightarrow> bool" where
  "level_ok key st L =
     (distinct L \<and> inj_on (\<lambda>r. key (st ! r)) (set L) \<and>
      (\<forall>a \<in> set L. a < length st \<and> set (mutex (st ! a)) \<subseteq> set L \<and> a \<notin> set (mutex (st ! a)) \<and>
         (\<forall>b \<in> set (mutex (st ! a)). a \<in> set (mutex (st ! b)))))"

definition graph_ok :: "PlanningGraph \<Rightarrow> bool" where
  "graph_ok g =
     ((\<forall>L \<in> set (s_levels g). level_ok s_key (s_store g) L) \<and>
      (\<forall>L \<in> set (a_levels g). level_ok a_key (a_store g) L))"

text \<open>The pairs of a level in the order in which the pair loop visits them.\<close>

definition visited :: "ref list \<Rightarrow> (ref \<times> ref) list" where
  "visited nodelist =
     concat (map (\<lambda>(i, n1). map (Pair n1) (drop (i + 1) nodelist)) (enumerate 0 (butlast nodelist)))"

subsection \<open>How a store changes\<close>

text \<open>
  A store \<open>grows\<close> when the old nodes keep the field \<open>f\<close> and their mutex sets and the new
  nodes have empty mutex sets; it is a fresh extension when new nodes with empty mutex sets
  are appended; two stores are the \<open>same\<close> up to fields other than \<open>f\<close> and the mutex sets;
  and the pair loops change nothing but the mutex sets of the nodes of one level.
\<close>

definition grows :: "('z PgNode_scheme \<Rightarrow> 'f) \<Rightarrow> 'z PgNode_scheme list \<Rightarrow> 'z PgNode_scheme list \<Rightarrow> bool" where
  "grows f st st' =
     (length st \<le> length st' \<and>
      (\<forall>r < length st. f (st' ! r) = f (st ! r) \<and> mutex (st' ! r) = mutex (st ! r)) \<and>
      (\<forall>r. length st \<le> r \<and> r < length st' \<longrightarrow> mutex (st' ! r) = []))"

definition fresh_ext :: "'z PgNode_scheme list \<Rightarrow> 'z PgNode_scheme list \<Rightarrow> bool" where
  "fresh_ext st st' = (\<exists>new. st' = st @ new \<and> (\<forall>n \<in> set new. mutex n = []))"

definition same :: "('z PgNode_scheme \<Rightarrow> 'f) \<Rightarrow> 'z PgNode_scheme list \<Rightarrow> 'z PgNode_scheme list \<Rightarrow> bool" where
  "same f st st' =
     (length st' = length st \<and> (\<forall>r. f (st' ! r) = f (st ! r) \<and> mutex (st' ! r) = mutex (st ! r)))"

definition only_mutex_changed :: "'z PgNode_scheme list \<Rightarrow> ref list \<Rightarrow> 'z PgNode_scheme list \<Rightarrow> bool" where
  "only_mutex_changed st L st' =
     (length st' = length st \<and> (\<forall>r. r \<notin> set L \<longrightarrow> st' ! r = st ! r) \<and>
      (\<forall>r. \<exists>m. st' ! r = (st ! r)\<lparr>mutex := m\<rparr>))"

text \<open>The fields of an action node that are set when it is built and never change.\<close>

definition a_fix :: "PgNode_a \<Rightarrow> Action \<times> ref list \<times> bool" where
  "a_fix n = (action n, effnodes n, is_persistent n)"

subsection \<open>Literals of a level and of an action\<close>

text \<open>
  The content of a literal level under literal identity, the literals an action needs and
  those it produces. An action is enabled in a level when the level holds all it needs.
\<close>

definition skeys :: "PgNode_s list \<Rightarrow> ref list \<Rightarrow> (bool \<times> expr) set" where
  "skeys st L = (\<lambda>r. s_key (st ! r)) ` set L"

definition pre_lits :: "Action \<Rightarrow> (bool \<times> expr) set" where
  "pre_lits act = Pair True ` set (precond_pos act) \<union> Pair False ` set (precond_neg act)"

definition eff_lits :: "Action \<Rightarrow> (bool \<times> expr) set" where
  "eff_lits act = Pair True ` set (effect_add act) \<union> Pair False ` set (effect_rem act)"

definition preconds_hold :: "PgNode_s list \<Rightarrow> ref list \<Rightarrow> Action \<Rightarrow> bool" where
  "preconds_hold st prev act = (pre_lits act \<subseteq> skeys st prev)"

text \<open>The identity of the action node that is built for an action.\<close>

definition act_key :: "Action \<Rightarrow> bool \<times> expr \<times> expr list" where
  "act_key act = (pre_lits act = eff_lits act, name act, args act)"

subsection \<open>While an action level is built\<close>

text \<open>
  Between two graphs of one construction the stores grow and the problem, the initial
  state and the action list stay.
\<close>

definition extends :: "PlanningGraph \<Rightarrow> PlanningGraph \<Rightarrow> bool" where
  "extends g g' =
     (grows s_key (s_store g) (s_store g') \<and> grows a_fix (a_store g) (a_store g') \<and>
      problem g' = problem g \<and> fs_pos g' = fs_pos g \<and> fs_neg g' = fs_neg g \<and>
      serial g' = serial g \<and> all_actions g' = all_actions g \<and> goal_states g' = goal_states g)"

text \<open>
  An action node built in this round: it and its effect nodes are new, the effect nodes
  are the effects of its action, and its action satisfies \<open>ok\<close>.
\<close>

definition node_new :: "nat \<Rightarrow> nat \<Rightarrow> (Action \<Rightarrow> bool) \<Rightarrow> PgNode_s list \<Rightarrow> PgNode_a list \<Rightarrow> ref \<Rightarrow> bool" where
  "node_new n0 m0 ok st ast a =
     (m0 \<le> a \<and> a < length ast \<and>
      (\<forall>e \<in> set (effnodes (ast ! a)). n0 \<le> e \<and> e < length st) \<and>
      skeys st (effnodes (ast ! a)) = eff_lits (action (ast ! a)) \<and>
      is_persistent (ast ! a) = (pre_lits (action (ast ! a)) = eff_lits (action (ast ! a))) \<and>
      ok (action (ast ! a)))"

definition a_level_new :: "nat \<Rightarrow> nat \<Rightarrow> (Action \<Rightarrow> bool) \<Rightarrow> PgNode_s list \<Rightarrow> PgNode_a list \<Rightarrow> ref list \<Rightarrow> bool" where
  "a_level_new n0 m0 ok st ast L =
     (distinct L \<and> inj_on (\<lambda>r. a_key (ast ! r)) (set L) \<and>
      (\<forall>a \<in> set L. node_new n0 m0 ok st ast a))"

text \<open>
  The state of \<^verbatim>\<open>add_action_level\<close> after the actions \<open>acts\<close> have been looked at, \<open>g0\<close>
  being the graph at its start.
\<close>

definition building :: "PlanningGraph \<Rightarrow> nat \<Rightarrow> ref list \<Rightarrow> Action list \<Rightarrow> PlanningGraph \<Rightarrow> bool" where
  "building g0 level prev acts g =
     (extends g0 g \<and> s_levels g = s_levels g0 \<and> length (a_levels g) = length (a_levels g0) \<and>
      (\<forall>i. i \<noteq> level \<longrightarrow> a_levels g ! i = a_levels g0 ! i) \<and>
      a_level_new (length (s_store g0)) (length (a_store g0))
        (\<lambda>act. act \<in> set (all_actions g0) \<and> preconds_hold (s_store g0) prev act)
        (s_store g) (a_store g) (a_levels g ! level) \<and>
      (\<forall>act \<in> set acts. preconds_hold (s_store g0) prev act \<longrightarrow>
         act_key act \<in> (\<lambda>r. a_key (a_store g ! r)) ` set (a_levels g ! level)))"

subsection \<open>One round of the level-off loop\<close>

text \<open>
  At the head of the loop there is one literal level more than action levels, and every
  level is well formed.
\<close>

definition loop_inv :: "PlanningGraph \<Rightarrow> nat \<Rightarrow> bool" where
  "loop_inv g level =
     (length (s_levels g) = Suc level \<and> length (a_levels g) = level \<and> graph_ok g)"

definition keeps :: "PlanningGraph \<Rightarrow> PlanningGraph \<Rightarrow> bool" where
  "keeps g g' =
     (length (s_store g) \<le> length (s_store g') \<and>
      (\<forall>r < length (s_store g). s_key (s_store g' ! r) = s_key (s_store g ! r)) \<and>
      problem g' = problem g \<and> fs_pos g' = fs_pos g \<and> fs_neg g' = fs_neg g \<and>
      serial g' = serial g \<and> all_actions g' = all_actions g \<and> goal_states g' = goal_states g)"

text \<open>
  What one round does: the old literal levels stay, every literal of the new level is an
  effect of an enabled action, and all effects of every enabled action (of the action
  listed first among those with its identity) are in the new level.
\<close>

definition step_ok :: "PlanningGraph \<Rightarrow> nat \<Rightarrow> PlanningGraph \<Rightarrow> bool" where
  "step_ok g level g' =
     (loop_inv g' (Suc level) \<and> keeps g g' \<and> take (Suc level) (s_levels g') = s_levels g \<and>
      (\<forall>x \<in> skeys (s_store g') (s_levels g' ! Suc level).
         \<exists>act \<in> set (all_actions g).
           preconds_hold (s_store g) (s_levels g ! level) act \<and> x \<in> eff_lits act) \<and>
      (\<forall>act \<in> set (all_actions g). preconds_hold (s_store g) (s_levels g ! level) act \<longrightarrow>
         (\<exists>act' \<in> set (all_actions g). act_key act' = act_key act \<and>
            eff_lits act' \<subseteq> skeys (s_store g') (s_levels g' ! Suc level))))"

subsection \<open>Why the loop ends\<close>

text \<open>
  The literals of the \<open>k\<close>-th literal level, and all literals over the fluents of
  \<^verbatim>\<open>state_map\<close>.
\<close>

definition lits :: "PlanningGraph \<Rightarrow> nat \<Rightarrow> (bool \<times> expr) set" where
  "lits g k = skeys (s_store g) (s_levels g ! k)"

definition vocab :: "Problem \<Rightarrow> (bool \<times> expr) set" where
  "vocab pr = UNIV \<times> set (state_map pr)"

text \<open>
  A problem is well formed when its actions add and remove fluents of \<^verbatim>\<open>state_map\<close> only
  and none of them bears the name of a no-op.
\<close>

definition well_formed :: "Problem \<Rightarrow> bool" where
  "well_formed pr =
     (\<forall>act \<in> set (actions_list pr).
        set (effect_add act) \<union> set (effect_rem act) \<subseteq> set (state_map pr) \<and>
        name act \<noteq> ''Noop_pos'' \<and> name act \<noteq> ''Noop_neg'')"

text \<open>The no-op action that \<^verbatim>\<open>noop_actions\<close> builds for a literal.\<close>

definition noop_for :: "bool \<Rightarrow> expr \<Rightarrow> Action" where
  "noop_for pol fluent =
     (if pol
      then \<lparr>name = ''Noop_pos'', args = [fluent], precond_pos = [fluent], precond_neg = [],
            effect_add = [fluent], effect_rem = []\<rparr>
      else \<lparr>name = ''Noop_neg'', args = [fluent], precond_pos = [], precond_neg = [fluent],
            effect_add = [], effect_rem = [fluent]\<rparr>)"

text \<open>
  At the head of the loop, as long as it has not ended: the literal levels built so far
  grow strictly, stay inside the vocabulary, and the first one decides every fluent.
\<close>

definition climbing :: "PlanningGraph \<Rightarrow> nat \<Rightarrow> bool" where
  "climbing g level =
     (loop_inv g level \<and>
      all_actions g = actions_list (problem g) @ noop_actions (state_map (problem g)) \<and>
      well_formed (problem g) \<and>
      lits g level \<subseteq> vocab (problem g) \<and>
      (\<forall>k < level. lits g k \<subset> lits g (Suc k)) \<and>
      card (set (state_map (problem g))) \<le> card (lits g 0))"

text \<open>
  A graph that has levelled off after \<open>m\<close> rounds of growth: \<open>m + 2\<close> literal levels, the
  last two with the same literals.
\<close>

definition levelled :: "PlanningGraph \<Rightarrow> nat \<Rightarrow> bool" where
  "levelled g m =
     (length (s_levels g) = m + 2 \<and> (\<forall>k < m. lits g k \<subset> lits g (Suc k)) \<and>
      lits g (Suc m) = lits g m \<and> m \<le> card (set (state_map (problem g))))"

section \<open>Loops over lists\<close>

lemma fold_preserves:
  assumes "\<And>x s. x \<in> set xs \<Longrightarrow> P s \<Longrightarrow> P (f x s)" and "P s"
  shows "P (fold f xs s)"
  using assms by (induction xs arbitrary: s) auto

text \<open>
  What every call of \<open>mark\<close> preserves, the pair loop preserves; the pairs it visits are
  pairs of different nodes of the list when the list has no node twice.
\<close>

lemma mutex_pairs_preserves:
  assumes step: "\<And>g n1 n2. P g \<Longrightarrow> n1 \<in> set nodelist \<Longrightarrow> n2 \<in> set nodelist
      \<Longrightarrow> (distinct nodelist \<longrightarrow> n1 \<noteq> n2) \<Longrightarrow> P (mark g n1 n2)"
    and init: "P g"
  shows "P (mutex_pairs test mark nodelist g)"
  unfolding mutex_pairs_def
proof (rule fold_preserves [where P = P, OF _ init])
  fix x s
  assume x: "x \<in> set (enumerate 0 (butlast nodelist))" and s: "P s"
  obtain i n1 where xe: "x = (i, n1)" by (cases x)
  from x xe have i: "i < length nodelist" and n1: "n1 = nodelist ! i"
    by (auto simp: in_set_enumerate_eq nth_butlast)
  have "P (fold (\<lambda>n2 g2. if test g2 n1 n2 then mark g2 n1 n2 else g2) (drop (i + 1) nodelist) s)"
  proof (rule fold_preserves [where P = P, OF _ s])
    fix n2 g2
    assume n2: "n2 \<in> set (drop (i + 1) nodelist)" and g2: "P g2"
    from n2 obtain k where k: "k < length nodelist - Suc i" "n2 = nodelist ! Suc (i + k)"
      by (auto simp: in_set_conv_nth)
    then have j: "Suc (i + k) < length nodelist" "i < Suc (i + k)" "n2 = nodelist ! Suc (i + k)"
      by auto
    with i n1 have "distinct nodelist \<longrightarrow> n1 \<noteq> n2"
      by (auto simp: nth_eq_iff_index_eq)
    with i n1 j g2 show "P (if test g2 n1 n2 then mark g2 n1 n2 else g2)"
      by (auto intro!: step)
  qed
  then show "P ((case x of (i, n1) \<Rightarrow> \<lambda>g1.
      fold (\<lambda>n2 g2. if test g2 n1 n2 then mark g2 n1 n2 else g2) (drop (i + 1) nodelist) g1) s)"
    by (simp add: xe)
qed

section \<open>No-op actions\<close>

lemma noop_is_persistent:
  "act \<in> set (noop_actions literal_list) \<Longrightarrow> is_persistent (snd (new_PgNode_a st act))"
  by (induction literal_list)
     (auto simp: new_PgNode_a_def precond_s_nodes_def effect_s_nodes_def set_eq_def set_in_def
        set_add_def s_key_def new_PgNode_s_def nth_append)

section \<open>A second construction\<close>

lemma update_s_mutex_s_levels: "s_levels (update_s_mutex g nodeset) = s_levels g"
  unfolding update_s_mutex_def
  by (rule mutex_pairs_preserves [where P = "\<lambda>g'. s_levels g' = s_levels g"]) simp_all

lemma level_loop_s_levels:
  assumes "level_loop g1 level = Some r"
  shows "\<forall>g'. r = Inr g' \<longrightarrow> s_levels g' \<noteq> []"
  by (rule level_loop.raw_induct [OF _ assms])
     (auto split: sum.splits if_splits simp: Let_def update_s_mutex_s_levels)

lemma create_graph_s_levels:
  assumes "create_graph g0 = Some (Inr g)"
  shows "s_levels g \<noteq> []"
  using assms
  by (auto simp: create_graph_def split: if_splits prod.splits dest: level_loop_s_levels)

lemma new_PlanningGraph_s_levels:
  assumes "new_PlanningGraph pr pos neg sp = Some (Inr g)"
  shows "s_levels g \<noteq> []"
  using assms
  by (auto simp: new_PlanningGraph_def split: option.splits sum.splits prod.splits
        dest: create_graph_s_levels)

text \<open>
  Claim C9. \<^verbatim>\<open>create_graph\<close> on a graph whose level lists are not both empty raises and
  leaves the graph as it was. That is the case of the graph a first \<^verbatim>\<open>create_graph\<close> has
  built, and of the graph the constructor returns.
\<close>

theorem create_graph_twice:
  "(s_levels g \<noteq> [] \<or> a_levels g \<noteq> [] \<longrightarrow>
      create_graph g = Some (Inl (GraphAlreadyCreated, g))) \<and>
   (create_graph g0 = Some (Inr g) \<longrightarrow>
      create_graph g = Some (Inl (GraphAlreadyCreated, g))) \<and>
   (new_PlanningGraph pr pos neg sp = Some (Inr g) \<longrightarrow>
      create_graph g = Some (Inl (GraphAlreadyCreated, g)))"
proof -
  have "create_graph g = Some (Inl (GraphAlreadyCreated, g))" if "s_levels g \<noteq> [] \<or> a_levels g \<noteq> []"
    using that by (auto simp: create_graph_def)
  then show ?thesis
    by (blast dest: create_graph_s_levels new_PlanningGraph_s_levels)
qed

text \<open>The graph of the switch: built once, the second \<^verbatim>\<open>create_graph\<close> raises.\<close>

theorem create_graph_twice_witness:
  "\<exists>g. new_PlanningGraph switch_problem [''P''] [] True = Some (Inr g) \<and>
       s_levels g \<noteq> [] \<and>
       create_graph g = Some (Inl (GraphAlreadyCreated, g))"
proof -
  have "case new_PlanningGraph switch_problem [''P''] [] True of
          Some (Inr g) \<Rightarrow> length (s_levels g) = 3 | _ \<Rightarrow> False"
    by code_simp
  then obtain g where g: "new_PlanningGraph switch_problem [''P''] [] True = Some (Inr g)"
    "length (s_levels g) = 3"
    by (auto split: option.splits sum.splits)
  then have "s_levels g \<noteq> []"
    by auto
  with create_graph_twice [of g _ switch_problem "[''P'']" "[]" True] g show ?thesis
    by blast
qed

section \<open>The level sum\<close>

lemma fold_level_sum:
  "fold (\<lambda>x s. case f x of Some i \<Rightarrow> s + int i | None \<Rightarrow> s) xs a =
   a + sum_list (map (\<lambda>x. case f x of Some i \<Rightarrow> int i | None \<Rightarrow> 0) xs)"
  by (induction xs arbitrary: a) (auto split: option.splits)

lemma h_levelsum_sum: "h_levelsum g = sum_list (map (level_cost g) (goal_states g))"
  unfolding h_levelsum_def level_cost_def by (simp add: fold_level_sum)

lemma first_level_None:
  "first_level st x lvls i = None \<longleftrightarrow> \<not> list_ex (set_in s_key st x) lvls"
  by (induction lvls arbitrary: i) auto

lemma first_level_ge: "first_level st x lvls i = Some j \<Longrightarrow> i \<le> j"
  by (induction lvls arbitrary: i) (auto split: if_splits dest: Suc_leD)

lemma first_level_here:
  "first_level st x lvls i = Some i \<longleftrightarrow> lvls \<noteq> [] \<and> set_in s_key st x (lvls ! 0)"
  by (cases lvls) (auto dest: first_level_ge)

lemma first_level_absent:
  "\<not> list_ex (set_in s_key st x) lvls \<Longrightarrow> first_level st x lvls i = None"
  by (simp add: first_level_None)

lemma level_cost_absent: "absent g x \<Longrightarrow> level_cost g x = 0"
  by (simp add: level_cost_def absent_def first_level_absent)

lemma level_cost_goal_states [simp]: "level_cost (g\<lparr>goal_states := xs\<rparr>) = level_cost g"
  by (rule ext) (simp add: level_cost_def)

lemma level_cost_nonneg: "0 \<le> level_cost g x"
  by (simp add: level_cost_def split: option.splits)

lemma level_cost_0:
  "level_cost g x = 0 \<longleftrightarrow> absent g x \<or> set_in s_key (s_store g) x (s_levels g ! 0)"
proof (cases "first_level (s_store g) x (s_levels g) 0")
  case None
  then show ?thesis
    by (simp add: level_cost_def absent_def
          first_level_None [of "s_store g" x "s_levels g" 0, symmetric])
next
  case (Some j)
  then have "\<not> absent g x"
    using first_level_None [of "s_store g" x "s_levels g" 0] by (auto simp: absent_def)
  moreover from Some have "s_levels g \<noteq> []"
    by (cases "s_levels g") auto
  ultimately show ?thesis
    using Some first_level_here [of "s_store g" x "s_levels g" 0]
    by (auto simp: level_cost_def)
qed

text \<open>
  Claim C4, as the code has it. A goal node that no literal level holds raises nothing and
  returns no sentinel: it adds nothing to the sum, and \<^verbatim>\<open>h_levelsum\<close> returns the level
  sum of the other goal nodes.
\<close>

theorem h_levelsum_absent_goal:
  "absent g x \<Longrightarrow>
   h_levelsum (g\<lparr>goal_states := xs @ x # ys\<rparr>) = h_levelsum (g\<lparr>goal_states := xs @ ys\<rparr>)"
  by (simp add: h_levelsum_sum level_cost_absent)

text \<open>
  The fluent \<open>G\<close> is false, nothing adds it, and it is the goal: the leveled graph never
  holds \<open>G\<close>, and the level sum is 0, the value it also has when \<open>G\<close> holds from the start.
\<close>

theorem h_levelsum_unreachable_counterexample:
  "\<exists>g x g'. new_PlanningGraph stuck_problem [] [''G''] True = Some (Inr g) \<and>
      goal_states g = [x] \<and> absent g x \<and> h_levelsum g = 0 \<and>
      new_PlanningGraph stuck_problem [''G''] [] True = Some (Inr g') \<and>
      list_all (\<lambda>y. \<not> absent g' y) (goal_states g') \<and> h_levelsum g' = 0"
proof -
  have "case new_PlanningGraph stuck_problem [] [''G''] True of
          Some (Inr g) \<Rightarrow> goal_states g = [5] \<and> absent g 5 \<and> h_levelsum g = 0
        | _ \<Rightarrow> False"
    by code_simp
  moreover have "case new_PlanningGraph stuck_problem [''G''] [] True of
          Some (Inr g') \<Rightarrow> list_all (\<lambda>y. \<not> absent g' y) (goal_states g') \<and> h_levelsum g' = 0
        | _ \<Rightarrow> False"
    by code_simp
  ultimately show ?thesis
    by (auto split: option.splits sum.splits)
qed

theorem h_levelsum_absent_goal_witness:
  "\<exists>g x. new_PlanningGraph stuck_problem [] [''G''] True = Some (Inr g) \<and>
      goal_states g = [x] \<and> absent g x \<and>
      h_levelsum g = h_levelsum (g\<lparr>goal_states := []\<rparr>)"
proof -
  have "case new_PlanningGraph stuck_problem [] [''G''] True of
          Some (Inr g) \<Rightarrow> goal_states g = [5] \<and> absent g 5
        | _ \<Rightarrow> False"
    by code_simp
  then obtain g where g: "new_PlanningGraph stuck_problem [] [''G''] True = Some (Inr g)"
    "goal_states g = [5]" "absent g 5"
    by (auto split: option.splits sum.splits)
  from g(2) have eq: "g\<lparr>goal_states := [5]\<rparr> = g"
    by simp
  from h_levelsum_absent_goal [OF g(3), of "[]" "[]"]
  have "h_levelsum (g\<lparr>goal_states := [5]\<rparr>) = h_levelsum (g\<lparr>goal_states := []\<rparr>)"
    by simp
  then have "h_levelsum g = h_levelsum (g\<lparr>goal_states := []\<rparr>)"
    unfolding eq .
  with g show ?thesis
    by blast
qed

text \<open>
  Claim C5, as the code has it. The level sum is 0 iff every goal node is held by the
  initial literal level or by no literal level at all.
\<close>

theorem h_levelsum_zero_iff:
  "(h_levelsum g = 0) =
   (\<forall>x \<in> set (goal_states g). absent g x \<or> set_in s_key (s_store g) x (s_levels g ! 0))"
proof -
  have "(h_levelsum g = 0) = (\<forall>c \<in> set (map (level_cost g) (goal_states g)). c = 0)"
    unfolding h_levelsum_sum
    by (rule sum_list_nonneg_eq_0_iff) (auto simp: level_cost_nonneg)
  then show ?thesis
    by (simp add: level_cost_0)
qed

text \<open>The level sum of the stuck problem is 0, and its goal is not in the initial level.\<close>

theorem h_levelsum_zero_counterexample:
  "\<exists>g. new_PlanningGraph stuck_problem [] [''G''] True = Some (Inr g) \<and>
      \<not> ((h_levelsum g = 0) =
         list_all (\<lambda>x. set_in s_key (s_store g) x (s_levels g ! 0)) (goal_states g))"
proof -
  have "case new_PlanningGraph stuck_problem [] [''G''] True of
          Some (Inr g) \<Rightarrow>
            \<not> ((h_levelsum g = 0) =
               list_all (\<lambda>x. set_in s_key (s_store g) x (s_levels g ! 0)) (goal_states g))
        | _ \<Rightarrow> False"
    by code_simp
  then show ?thesis
    by (auto split: option.splits sum.splits)
qed

text \<open>The switch with \<open>P\<close> true: the goal \<open>P\<close> is in the initial level, the level sum is 0.\<close>

theorem h_levelsum_zero_iff_witness:
  "\<exists>g. new_PlanningGraph switch_problem [''P''] [] True = Some (Inr g) \<and>
      list_all (\<lambda>x. set_in s_key (s_store g) x (s_levels g ! 0)) (goal_states g) \<and>
      h_levelsum g = 0"
proof -
  have "case new_PlanningGraph switch_problem [''P''] [] True of
          Some (Inr g) \<Rightarrow>
            list_all (\<lambda>x. set_in s_key (s_store g) x (s_levels g ! 0)) (goal_states g)
        | _ \<Rightarrow> False"
    by code_simp
  then obtain g where g: "new_PlanningGraph switch_problem [''P''] [] True = Some (Inr g)"
    "list_all (\<lambda>x. set_in s_key (s_store g) x (s_levels g ! 0)) (goal_states g)"
    by (auto split: option.splits sum.splits)
  from g(2) h_levelsum_zero_iff [of g] have "h_levelsum g = 0"
    by (auto simp: list_all_iff)
  with g show ?thesis
    by blast
qed

section \<open>Parents, producers and the mutex rules that read them\<close>

text \<open>
  Claim C3 on the code. Both \<open>A1\<close> and \<open>A2\<close> are in the first action level and add \<open>P\<close>,
  but the node of \<open>P\<close> in the next literal level has one parent only: the action node
  that \<^verbatim>\<open>add_literal_level\<close> visits first. The effect node of the other action is a
  different object, which takes that action as parent and is then left out of the level.
  Whatever the order of the two, one producer is missing.
\<close>

theorem add_literal_level_single_parent:
  "(\<exists>g p a1 a2.
      new_PlanningGraph (twin_problem [add_P ''A1'', add_P ''A2'']) [] [''P''] True = Some (Inr g) \<and>
      s_node_of g 1 True ''P'' = Some p \<and>
      a_node_of g 0 ''A1'' = Some a1 \<and> a_node_of g 0 ''A2'' = Some a2 \<and>
      ''P'' \<in> set (effect_add (action (a_store g ! a1))) \<and>
      ''P'' \<in> set (effect_add (action (a_store g ! a2))) \<and>
      parents (s_store g ! p) = [a1] \<and>
      \<not> set_in a_key (a_store g) a2 (parents (s_store g ! p))) \<and>
   (\<exists>g p a1 a2.
      new_PlanningGraph (twin_problem [add_P ''A2'', add_P ''A1'']) [] [''P''] True = Some (Inr g) \<and>
      s_node_of g 1 True ''P'' = Some p \<and>
      a_node_of g 0 ''A1'' = Some a1 \<and> a_node_of g 0 ''A2'' = Some a2 \<and>
      ''P'' \<in> set (effect_add (action (a_store g ! a1))) \<and>
      ''P'' \<in> set (effect_add (action (a_store g ! a2))) \<and>
      parents (s_store g ! p) = [a2] \<and>
      \<not> set_in a_key (a_store g) a1 (parents (s_store g ! p)))"
proof -
  have "case new_PlanningGraph (twin_problem [add_P ''A1'', add_P ''A2'']) [] [''P''] True of
      Some (Inr g) \<Rightarrow>
        s_node_of g 1 True ''P'' = Some 1 \<and>
        a_node_of g 0 ''A1'' = Some 0 \<and> a_node_of g 0 ''A2'' = Some 1 \<and>
        ''P'' \<in> set (effect_add (action (a_store g ! 0))) \<and>
        ''P'' \<in> set (effect_add (action (a_store g ! 1))) \<and>
        parents (s_store g ! 1) = [0] \<and>
        \<not> set_in a_key (a_store g) 1 (parents (s_store g ! 1))
    | _ \<Rightarrow> False"
    by code_simp
  moreover
  have "case new_PlanningGraph (twin_problem [add_P ''A2'', add_P ''A1'']) [] [''P''] True of
      Some (Inr g) \<Rightarrow>
        s_node_of g 1 True ''P'' = Some 1 \<and>
        a_node_of g 0 ''A1'' = Some 1 \<and> a_node_of g 0 ''A2'' = Some 0 \<and>
        ''P'' \<in> set (effect_add (action (a_store g ! 1))) \<and>
        ''P'' \<in> set (effect_add (action (a_store g ! 0))) \<and>
        parents (s_store g ! 1) = [0] \<and>
        \<not> set_in a_key (a_store g) 1 (parents (s_store g ! 1))
    | _ \<Rightarrow> False"
    by code_simp
  ultimately show ?thesis
    by (auto split: option.splits sum.splits)
qed

text \<open>
  Claim C2 on the code. In the second literal level \<open>P\<close> and its negation are mutex, and in
  the second action level \<open>U\<close> has a parent equal to \<open>P\<close> and \<open>W\<close> a parent equal to the
  negation. The parents are the fresh nodes \<^verbatim>\<open>add_action_level\<close> built for the lookup, not
  the nodes of the level: their mutex sets are empty, \<^verbatim>\<open>competing_needs_mutex\<close> answers
  false, and \<open>U\<close> and \<open>W\<close> are not marked.
\<close>

theorem competing_needs_fresh_parents:
  "\<exists>g p np u w.
      new_PlanningGraph needs_problem [''P''] [''R''] False = Some (Inr g) \<and>
      s_node_of g 1 True ''P'' = Some p \<and> s_node_of g 1 False ''P'' = Some np \<and>
      a_node_of g 1 ''U'' = Some u \<and> a_node_of g 1 ''W'' = Some w \<and>
      is_mutex s_key (s_store g) p np \<and> is_mutex s_key (s_store g) np p \<and>
      set_in s_key (s_store g) p (parents (a_store g ! u)) \<and>
      set_in s_key (s_store g) np (parents (a_store g ! w)) \<and>
      p \<notin> set (parents (a_store g ! u)) \<and> np \<notin> set (parents (a_store g ! w)) \<and>
      \<not> competing_needs_mutex g u w \<and> \<not> competing_needs_mutex g w u \<and>
      \<not> is_mutex a_key (a_store g) u w \<and> \<not> is_mutex a_key (a_store g) w u"
proof -
  have "case new_PlanningGraph needs_problem [''P''] [''R''] False of
      Some (Inr g) \<Rightarrow>
        s_node_of g 1 True ''P'' = Some 11 \<and> s_node_of g 1 False ''P'' = Some 4 \<and>
        a_node_of g 1 ''U'' = Some 5 \<and> a_node_of g 1 ''W'' = Some 6 \<and>
        is_mutex s_key (s_store g) 11 4 \<and> is_mutex s_key (s_store g) 4 11 \<and>
        set_in s_key (s_store g) 11 (parents (a_store g ! 5)) \<and>
        set_in s_key (s_store g) 4 (parents (a_store g ! 6)) \<and>
        11 \<notin> set (parents (a_store g ! 5)) \<and> 4 \<notin> set (parents (a_store g ! 6)) \<and>
        \<not> competing_needs_mutex g 5 6 \<and> \<not> competing_needs_mutex g 6 5 \<and>
        \<not> is_mutex a_key (a_store g) 5 6 \<and> \<not> is_mutex a_key (a_store g) 6 5
    | _ \<Rightarrow> False"
    by code_simp
  then show ?thesis
    by (auto split: option.splits sum.splits)
qed

text \<open>
  Claim C1 on the code. With \<open>A\<close> before \<open>B\<close> in the action level, the node of \<open>X\<close> has the
  parent \<open>A\<close> only; \<open>A\<close> is mutex with \<open>C\<close>, the one producer of the negation of \<open>U\<close>, and
  \<^verbatim>\<open>inconsistent_support_mutex\<close> marks \<open>X\<close> and the negation of \<open>U\<close>, although the producer
  \<open>B\<close> of \<open>X\<close> is not mutex with \<open>C\<close>. With \<open>B\<close> before \<open>A\<close> the same happens to \<open>X\<close> and
  the negation of \<open>V\<close>, whose producer \<open>D\<close> is not mutex with \<open>A\<close>.
\<close>

theorem inconsistent_support_first_producer:
  "(\<exists>g x nu b c.
      new_PlanningGraph (support_problem [act_A, act_B, act_C, act_D]) [''U'', ''V''] [''X''] False
        = Some (Inr g) \<and>
      s_node_of g 1 True ''X'' = Some x \<and> s_node_of g 1 False ''U'' = Some nu \<and>
      a_node_of g 0 ''B'' = Some b \<and> a_node_of g 0 ''C'' = Some c \<and>
      ''X'' \<in> set (effect_add (action (a_store g ! b))) \<and>
      ''U'' \<in> set (effect_rem (action (a_store g ! c))) \<and>
      \<not> is_mutex a_key (a_store g) b c \<and> \<not> is_mutex a_key (a_store g) c b \<and>
      inconsistent_support_mutex g x nu \<and> is_mutex s_key (s_store g) x nu) \<and>
   (\<exists>g x nv a d.
      new_PlanningGraph (support_problem [act_B, act_A, act_C, act_D]) [''U'', ''V''] [''X''] False
        = Some (Inr g) \<and>
      s_node_of g 1 True ''X'' = Some x \<and> s_node_of g 1 False ''V'' = Some nv \<and>
      a_node_of g 0 ''A'' = Some a \<and> a_node_of g 0 ''D'' = Some d \<and>
      ''X'' \<in> set (effect_add (action (a_store g ! a))) \<and>
      ''V'' \<in> set (effect_rem (action (a_store g ! d))) \<and>
      \<not> is_mutex a_key (a_store g) a d \<and> \<not> is_mutex a_key (a_store g) d a \<and>
      inconsistent_support_mutex g x nv \<and> is_mutex s_key (s_store g) x nv)"
proof -
  have "case new_PlanningGraph (support_problem [act_A, act_B, act_C, act_D])
               [''U'', ''V''] [''X''] False of
      Some (Inr g) \<Rightarrow>
        s_node_of g 1 True ''X'' = Some 5 \<and> s_node_of g 1 False ''U'' = Some 9 \<and>
        a_node_of g 0 ''B'' = Some 1 \<and> a_node_of g 0 ''C'' = Some 2 \<and>
        ''X'' \<in> set (effect_add (action (a_store g ! 1))) \<and>
        ''U'' \<in> set (effect_rem (action (a_store g ! 2))) \<and>
        \<not> is_mutex a_key (a_store g) 1 2 \<and> \<not> is_mutex a_key (a_store g) 2 1 \<and>
        inconsistent_support_mutex g 5 9 \<and> is_mutex s_key (s_store g) 5 9
    | _ \<Rightarrow> False"
    by code_simp
  moreover
  have "case new_PlanningGraph (support_problem [act_B, act_A, act_C, act_D])
               [''U'', ''V''] [''X''] False of
      Some (Inr g) \<Rightarrow>
        s_node_of g 1 True ''X'' = Some 5 \<and> s_node_of g 1 False ''V'' = Some 10 \<and>
        a_node_of g 0 ''A'' = Some 1 \<and> a_node_of g 0 ''D'' = Some 3 \<and>
        ''X'' \<in> set (effect_add (action (a_store g ! 1))) \<and>
        ''V'' \<in> set (effect_rem (action (a_store g ! 3))) \<and>
        \<not> is_mutex a_key (a_store g) 1 3 \<and> \<not> is_mutex a_key (a_store g) 3 1 \<and>
        inconsistent_support_mutex g 5 10 \<and> is_mutex s_key (s_store g) 5 10
    | _ \<Rightarrow> False"
    by code_simp
  ultimately show ?thesis
    by (auto split: option.splits sum.splits)
qed

section \<open>The construction keeps its levels well formed\<close>

subsection \<open>Sets of references\<close>

lemma set_in_iff: "set_in key st x s \<longleftrightarrow> key (st ! x) \<in> (\<lambda>y. key (st ! y)) ` set s"
  unfolding set_in_def image_iff by (auto simp: eq_commute)

lemma set_set_add:
  "set (set_add key st s x) = (if set_in key st x s then set s else insert x (set s))"
  by (simp add: set_add_def)

lemma set_add_subset: "set (set_add key st s x) \<subseteq> insert x (set s)"
  by (auto simp: set_set_add)

lemma set_add_mono: "set s \<subseteq> set (set_add key st s x)"
  by (auto simp: set_set_add)

lemma keys_set_add:
  "(\<lambda>y. key (st ! y)) ` set (set_add key st s x) = insert (key (st ! x)) ((\<lambda>y. key (st ! y)) ` set s)"
  by (auto simp: set_set_add set_in_iff)

lemma set_in_refl: "x \<in> set s \<Longrightarrow> set_in key st x s"
  by (auto simp: set_in_def)

lemma distinct_set_add: "distinct s \<Longrightarrow> distinct (set_add key st s x)"
  by (auto simp: set_add_def dest: set_in_refl)

lemma inj_on_set_add:
  "inj_on (\<lambda>y. key (st ! y)) (set s) \<Longrightarrow> inj_on (\<lambda>y. key (st ! y)) (set (set_add key st s x))"
  by (auto simp: set_set_add set_in_def inj_on_def)

lemma set_in_level:
  assumes "inj_on (\<lambda>r. key (st ! r)) (set L)" "set s \<subseteq> set L" "x \<in> set L"
  shows "set_in key st x s \<longleftrightarrow> x \<in> set s"
  using assms by (auto simp: set_in_def inj_on_def subset_iff)

lemma set_add_level:
  assumes "inj_on (\<lambda>r. key (st ! r)) (set L)" "set s \<subseteq> set L" "x \<in> set L"
  shows "set (set_add key st s x) = insert x (set s)"
  using set_in_level [OF assms] by (auto simp: set_set_add)

subsection \<open>mutexify\<close>

lemma mutexify_length [simp]: "length (mutexify key st n1 n2) = length st"
  by (simp add: mutexify_def Let_def)

lemma mutexify_other: "r \<noteq> n1 \<Longrightarrow> r \<noteq> n2 \<Longrightarrow> mutexify key st n1 n2 ! r = st ! r"
  by (simp add: mutexify_def Let_def)

lemma list_update_same_field:
  "\<exists>m. st[i := (st ! i)\<lparr>mutex := x\<rparr>] ! r = (st ! r)\<lparr>mutex := m\<rparr>"
proof (cases "r = i \<and> i < length st")
  case True
  then show ?thesis by auto
next
  case False
  then have "st[i := (st ! i)\<lparr>mutex := x\<rparr>] ! r = st ! r"
    by (cases "r = i") (auto simp: list_update_beyond)
  then have "st[i := (st ! i)\<lparr>mutex := x\<rparr>] ! r = (st ! r)\<lparr>mutex := mutex (st ! r)\<rparr>"
    by simp
  then show ?thesis ..
qed

lemma mutexify_only_mutex: "\<exists>m. mutexify key st n1 n2 ! r = (st ! r)\<lparr>mutex := m\<rparr>"
proof -
  define st1 where "st1 = st[n1 := (st ! n1)\<lparr>mutex := set_add key st (mutex (st ! n1)) n2\<rparr>]"
  obtain m1 where m1: "st1 ! r = (st ! r)\<lparr>mutex := m1\<rparr>"
    unfolding st1_def using list_update_same_field by blast
  obtain m2 where "st1[n2 := (st1 ! n2)\<lparr>mutex := set_add key st1 (mutex (st1 ! n2)) n1\<rparr>] ! r = (st1 ! r)\<lparr>mutex := m2\<rparr>"
    using list_update_same_field by blast
  with m1 have "mutexify key st n1 n2 ! r = (st ! r)\<lparr>mutex := m2\<rparr>"
    by (simp add: mutexify_def Let_def st1_def)
  then show ?thesis ..
qed

lemma mutexify_key:
  assumes "\<And>n m. key (n\<lparr>mutex := m\<rparr>) = key n"
  shows "key (mutexify key st n1 n2 ! r) = key (st ! r)"
  using mutexify_only_mutex [of key st n1 n2 r] assms by auto

lemma mutexify_mutex:
  assumes key: "\<And>n m. key (n\<lparr>mutex := m\<rparr>) = key n"
    and ok: "level_ok key st L" and n1: "n1 \<in> set L" and n2: "n2 \<in> set L" and ne: "n1 \<noteq> n2"
  shows "set (mutex (mutexify key st n1 n2 ! r)) =
         (if r = n1 then insert n2 (set (mutex (st ! n1)))
          else if r = n2 then insert n1 (set (mutex (st ! n2)))
          else set (mutex (st ! r)))"
proof -
  define st1 where "st1 = st[n1 := (st ! n1)\<lparr>mutex := set_add key st (mutex (st ! n1)) n2\<rparr>]"
  from ok n1 n2 have len: "n1 < length st" "n2 < length st"
    and inj: "inj_on (\<lambda>r. key (st ! r)) (set L)"
    and sub: "set (mutex (st ! n1)) \<subseteq> set L" "set (mutex (st ! n2)) \<subseteq> set L"
    by (auto simp: level_ok_def)
  have k1: "key (st1 ! y) = key (st ! y)" for y
  proof -
    obtain m where "st1 ! y = (st ! y)\<lparr>mutex := m\<rparr>"
      unfolding st1_def using list_update_same_field by blast
    then show ?thesis by (simp add: key)
  qed
  then have inj1: "inj_on (\<lambda>r. key (st1 ! r)) (set L)"
    using inj by simp
  have a: "set (set_add key st (mutex (st ! n1)) n2) = insert n2 (set (mutex (st ! n1)))"
    by (rule set_add_level [OF inj sub(1) n2])
  have st1n2: "st1 ! n2 = st ! n2"
    using ne by (simp add: st1_def)
  have b: "set (set_add key st1 (mutex (st1 ! n2)) n1) = insert n1 (set (mutex (st ! n2)))"
    using set_add_level [OF inj1 _ n1, of "mutex (st1 ! n2)"] sub(2) by (simp add: st1n2)
  have "mutexify key st n1 n2 = st1[n2 := (st1 ! n2)\<lparr>mutex := set_add key st1 (mutex (st1 ! n2)) n1\<rparr>]"
    by (simp add: mutexify_def Let_def st1_def)
  then show ?thesis
    using a b len ne by (auto simp: st1_def nth_list_update)
qed

lemma mutexify_level_ok:
  assumes key: "\<And>n m. key (n\<lparr>mutex := m\<rparr>) = key n"
    and ok: "level_ok key st L" and n1: "n1 \<in> set L" and n2: "n2 \<in> set L" and ne: "n1 \<noteq> n2"
  shows "level_ok key (mutexify key st n1 n2) L"
proof -
  let ?st = "mutexify key st n1 n2"
  note mm = mutexify_mutex [OF key ok n1 n2 ne]
  have kk: "key (?st ! r) = key (st ! r)" for r
    by (rule mutexify_key [of key, OF key])
  from ok have d: "distinct L" and inj: "inj_on (\<lambda>r. key (st ! r)) (set L)"
    and len: "\<And>a. a \<in> set L \<Longrightarrow> a < length st"
    and sub: "\<And>a. a \<in> set L \<Longrightarrow> set (mutex (st ! a)) \<subseteq> set L"
    and irr: "\<And>a. a \<in> set L \<Longrightarrow> a \<notin> set (mutex (st ! a))"
    and sym: "\<And>a b. a \<in> set L \<Longrightarrow> b \<in> set (mutex (st ! a)) \<Longrightarrow> a \<in> set (mutex (st ! b))"
    by (auto simp: level_ok_def)
  have "a < length ?st \<and> set (mutex (?st ! a)) \<subseteq> set L \<and> a \<notin> set (mutex (?st ! a)) \<and>
        (\<forall>b \<in> set (mutex (?st ! a)). a \<in> set (mutex (?st ! b)))" if a: "a \<in> set L" for a
  proof (intro conjI ballI)
    show "a < length ?st" using len [OF a] by simp
    show "set (mutex (?st ! a)) \<subseteq> set L"
      using sub [OF a] sub [OF n1] sub [OF n2] n1 n2 by (auto simp: mm)
    show "a \<notin> set (mutex (?st ! a))"
      using irr [OF a] ne by (auto simp: mm)
    fix b assume b: "b \<in> set (mutex (?st ! a))"
    show "a \<in> set (mutex (?st ! b))"
    proof (cases "a = n1 \<and> b = n2 \<or> a = n2 \<and> b = n1")
      case True
      then show ?thesis using ne by (auto simp: mm)
    next
      case False
      with b have "b \<in> set (mutex (st ! a))"
        by (auto simp: mm split: if_splits)
      from sym [OF a this] show ?thesis
        by (auto simp: mm)
    qed
  qed
  with d inj show ?thesis
    by (simp add: level_ok_def kk)
qed

subsection \<open>The pair loops\<close>

lemma s_key_mutex [simp]: "s_key (n\<lparr>mutex := m\<rparr>) = s_key n"
  by (simp add: s_key_def)

lemma a_key_mutex [simp]: "a_key (n\<lparr>mutex := m\<rparr>) = a_key n"
  by (simp add: a_key_def)

lemma only_mutex_changed_refl: "only_mutex_changed st L st"
proof -
  have "st ! r = (st ! r)\<lparr>mutex := mutex (st ! r)\<rparr>" for r by simp
  then have "\<exists>m. st ! r = (st ! r)\<lparr>mutex := m\<rparr>" for r by (rule exI)
  then show ?thesis by (simp add: only_mutex_changed_def)
qed

lemma only_mutex_changed_mutexify:
  assumes c: "only_mutex_changed st L st1" and n1: "n1 \<in> set L" and n2: "n2 \<in> set L"
  shows "only_mutex_changed st L (mutexify key st1 n1 n2)"
proof -
  let ?st = "mutexify key st1 n1 n2"
  from c have len: "length st1 = length st"
    and out: "\<And>r. r \<notin> set L \<Longrightarrow> st1 ! r = st ! r"
    and fld: "\<And>r. \<exists>m. st1 ! r = (st ! r)\<lparr>mutex := m\<rparr>"
    by (simp_all add: only_mutex_changed_def)
  have "?st ! r = st ! r" if "r \<notin> set L" for r
  proof -
    from that n1 n2 have "r \<noteq> n1" "r \<noteq> n2" by auto
    then have "?st ! r = st1 ! r" by (rule mutexify_other)
    with out [OF that] show ?thesis by simp
  qed
  moreover have "\<exists>m. ?st ! r = (st ! r)\<lparr>mutex := m\<rparr>" for r
  proof -
    obtain m where m: "?st ! r = (st1 ! r)\<lparr>mutex := m\<rparr>"
      using mutexify_only_mutex by blast
    obtain m' where m': "st1 ! r = (st ! r)\<lparr>mutex := m'\<rparr>"
      using fld by blast
    have "?st ! r = (st ! r)\<lparr>mutex := m\<rparr>"
      unfolding m m' by simp
    then show ?thesis by (rule exI)
  qed
  ultimately show ?thesis
    using len by (simp add: only_mutex_changed_def)
qed

lemma update_a_mutex_spec:
  assumes ok: "level_ok a_key (a_store g) L"
  shows "\<exists>ast. update_a_mutex g L = g\<lparr>a_store := ast\<rparr> \<and> level_ok a_key ast L \<and>
           only_mutex_changed (a_store g) L ast"
  unfolding update_a_mutex_def
proof (rule mutex_pairs_preserves
    [where P = "\<lambda>g'. \<exists>ast. g' = g\<lparr>a_store := ast\<rparr> \<and> level_ok a_key ast L \<and>
           only_mutex_changed (a_store g) L ast"])
  have "g = g\<lparr>a_store := a_store g\<rparr>" by simp
  with ok only_mutex_changed_refl [of "a_store g" L]
  show "\<exists>ast. g = g\<lparr>a_store := ast\<rparr> \<and> level_ok a_key ast L \<and>
           only_mutex_changed (a_store g) L ast"
    by blast
next
  fix g' n1 n2
  assume P: "\<exists>ast. g' = g\<lparr>a_store := ast\<rparr> \<and> level_ok a_key ast L \<and>
           only_mutex_changed (a_store g) L ast"
    and n1: "n1 \<in> set L" and n2: "n2 \<in> set L" and d: "distinct L \<longrightarrow> n1 \<noteq> n2"
  from P obtain ast where g': "g' = g\<lparr>a_store := ast\<rparr>" and lo: "level_ok a_key ast L"
    and omc: "only_mutex_changed (a_store g) L ast"
    by blast
  from lo d have ne: "n1 \<noteq> n2" by (simp add: level_ok_def)
  let ?ast = "mutexify a_key ast n1 n2"
  have 1: "level_ok a_key ?ast L"
    by (rule mutexify_level_ok [OF _ lo n1 n2 ne]) simp
  have 2: "only_mutex_changed (a_store g) L ?ast"
    by (rule only_mutex_changed_mutexify [OF omc n1 n2])
  have 3: "g'\<lparr>a_store := mutexify a_key (a_store g') n1 n2\<rparr> = g\<lparr>a_store := ?ast\<rparr>"
    unfolding g' by simp
  from 1 2 3 show "\<exists>ast'. g'\<lparr>a_store := mutexify a_key (a_store g') n1 n2\<rparr> = g\<lparr>a_store := ast'\<rparr> \<and>
           level_ok a_key ast' L \<and> only_mutex_changed (a_store g) L ast'"
    by blast
qed

lemma update_s_mutex_spec:
  assumes ok: "level_ok s_key (s_store g) L"
  shows "\<exists>st. update_s_mutex g L = g\<lparr>s_store := st\<rparr> \<and> level_ok s_key st L \<and>
           only_mutex_changed (s_store g) L st"
  unfolding update_s_mutex_def
proof (rule mutex_pairs_preserves
    [where P = "\<lambda>g'. \<exists>st. g' = g\<lparr>s_store := st\<rparr> \<and> level_ok s_key st L \<and>
           only_mutex_changed (s_store g) L st"])
  have "g = g\<lparr>s_store := s_store g\<rparr>" by simp
  with ok only_mutex_changed_refl [of "s_store g" L]
  show "\<exists>st. g = g\<lparr>s_store := st\<rparr> \<and> level_ok s_key st L \<and>
           only_mutex_changed (s_store g) L st"
    by blast
next
  fix g' n1 n2
  assume P: "\<exists>st. g' = g\<lparr>s_store := st\<rparr> \<and> level_ok s_key st L \<and>
           only_mutex_changed (s_store g) L st"
    and n1: "n1 \<in> set L" and n2: "n2 \<in> set L" and d: "distinct L \<longrightarrow> n1 \<noteq> n2"
  from P obtain st where g': "g' = g\<lparr>s_store := st\<rparr>" and lo: "level_ok s_key st L"
    and omc: "only_mutex_changed (s_store g) L st"
    by blast
  from lo d have ne: "n1 \<noteq> n2" by (simp add: level_ok_def)
  let ?st = "mutexify s_key st n1 n2"
  have 1: "level_ok s_key ?st L"
    by (rule mutexify_level_ok [OF _ lo n1 n2 ne]) simp
  have 2: "only_mutex_changed (s_store g) L ?st"
    by (rule only_mutex_changed_mutexify [OF omc n1 n2])
  have 3: "g'\<lparr>s_store := mutexify s_key (s_store g') n1 n2\<rparr> = g\<lparr>s_store := ?st\<rparr>"
    unfolding g' by simp
  from 1 2 3 show "\<exists>st'. g'\<lparr>s_store := mutexify s_key (s_store g') n1 n2\<rparr> = g\<lparr>s_store := st'\<rparr> \<and>
           level_ok s_key st' L \<and> only_mutex_changed (s_store g) L st'"
    by blast
qed

subsection \<open>Levels in a store that has grown\<close>

lemma level_ok_cong:
  assumes ok: "level_ok key st L" and len: "length st \<le> length st'"
    and k: "\<forall>r \<in> set L. key (st' ! r) = key (st ! r)"
    and m: "\<forall>r \<in> set L. mutex (st' ! r) = mutex (st ! r)"
  shows "level_ok key st' L"
proof -
  from ok have d: "distinct L" and inj: "inj_on (\<lambda>r. key (st ! r)) (set L)"
    and bnd: "\<And>a. a \<in> set L \<Longrightarrow> a < length st"
    and sub: "\<And>a. a \<in> set L \<Longrightarrow> set (mutex (st ! a)) \<subseteq> set L"
    and irr: "\<And>a. a \<in> set L \<Longrightarrow> a \<notin> set (mutex (st ! a))"
    and sym: "\<And>a b. a \<in> set L \<Longrightarrow> b \<in> set (mutex (st ! a)) \<Longrightarrow> a \<in> set (mutex (st ! b))"
    by (auto simp: level_ok_def)
  from m have m': "\<And>a. a \<in> set L \<Longrightarrow> mutex (st' ! a) = mutex (st ! a)"
    by blast
  have "inj_on (\<lambda>r. key (st' ! r)) (set L) = inj_on (\<lambda>r. key (st ! r)) (set L)"
    by (rule inj_on_cong) (use k in blast)
  with inj have inj': "inj_on (\<lambda>r. key (st' ! r)) (set L)"
    by simp
  have "a < length st' \<and> set (mutex (st' ! a)) \<subseteq> set L \<and> a \<notin> set (mutex (st' ! a)) \<and>
        (\<forall>b \<in> set (mutex (st' ! a)). a \<in> set (mutex (st' ! b)))" if a: "a \<in> set L" for a
  proof (intro conjI ballI)
    show "a < length st'" using bnd [OF a] len by simp
    show "set (mutex (st' ! a)) \<subseteq> set L" using sub [OF a] by (simp add: m' [OF a])
    show "a \<notin> set (mutex (st' ! a))" using irr [OF a] by (simp add: m' [OF a])
    fix b assume "b \<in> set (mutex (st' ! a))"
    then have b: "b \<in> set (mutex (st ! a))" by (simp add: m' [OF a])
    with sub [OF a] have bL: "b \<in> set L" by blast
    from sym [OF a b] show "a \<in> set (mutex (st' ! b))" by (simp add: m' [OF bL])
  qed
  with d inj' show ?thesis
    unfolding level_ok_def by blast
qed

lemma level_ok_fresh:
  assumes "distinct L" "inj_on (\<lambda>r. key (st ! r)) (set L)"
    and "\<forall>a \<in> set L. a < length st \<and> mutex (st ! a) = []"
  shows "level_ok key st L"
  using assms by (auto simp: level_ok_def)

lemma grows_refl: "grows f st st"
  by (auto simp: grows_def)

lemma grows_trans:
  assumes a: "grows f st st1" and b: "grows f st1 st2"
  shows "grows f st st2"
proof -
  from a have a1: "length st \<le> length st1"
    and a2: "\<And>r. r < length st \<Longrightarrow> f (st1 ! r) = f (st ! r) \<and> mutex (st1 ! r) = mutex (st ! r)"
    and a3: "\<And>r. length st \<le> r \<Longrightarrow> r < length st1 \<Longrightarrow> mutex (st1 ! r) = []"
    by (auto simp: grows_def)
  from b have b1: "length st1 \<le> length st2"
    and b2: "\<And>r. r < length st1 \<Longrightarrow> f (st2 ! r) = f (st1 ! r) \<and> mutex (st2 ! r) = mutex (st1 ! r)"
    and b3: "\<And>r. length st1 \<le> r \<Longrightarrow> r < length st2 \<Longrightarrow> mutex (st2 ! r) = []"
    by (auto simp: grows_def)
  have "f (st2 ! r) = f (st ! r) \<and> mutex (st2 ! r) = mutex (st ! r)" if "r < length st" for r
    using a2 [OF that] b2 [of r] that a1 by simp
  moreover have "mutex (st2 ! r) = []" if "length st \<le> r" "r < length st2" for r
  proof (cases "r < length st1")
    case True
    with a3 [OF that(1)] b2 [of r] show ?thesis by simp
  next
    case False
    with b3 [of r] that show ?thesis by simp
  qed
  ultimately show ?thesis
    using a1 b1 by (simp add: grows_def)
qed

lemma level_ok_grows:
  assumes ok: "level_ok key st L" and g: "grows f st st'"
    and kf: "\<And>n n'. f n = f n' \<Longrightarrow> key n = key n'"
  shows "level_ok key st' L"
proof (rule level_ok_cong [OF ok])
  from ok have len: "\<And>r. r \<in> set L \<Longrightarrow> r < length st"
    by (simp add: level_ok_def)
  from g have gl: "length st \<le> length st'"
    and gf: "\<And>r. r < length st \<Longrightarrow> f (st' ! r) = f (st ! r)"
    and gm: "\<And>r. r < length st \<Longrightarrow> mutex (st' ! r) = mutex (st ! r)"
    by (simp_all add: grows_def)
  show "length st \<le> length st'" by (rule gl)
  show "\<forall>r \<in> set L. key (st' ! r) = key (st ! r)"
  proof
    fix r assume "r \<in> set L"
    then have "f (st' ! r) = f (st ! r)" by (intro gf len)
    then show "key (st' ! r) = key (st ! r)" by (rule kf)
  qed
  show "\<forall>r \<in> set L. mutex (st' ! r) = mutex (st ! r)"
  proof
    fix r assume "r \<in> set L"
    then show "mutex (st' ! r) = mutex (st ! r)" by (intro gm len)
  qed
qed

lemma fresh_ext_refl: "fresh_ext st st"
  by (simp add: fresh_ext_def)

lemma fresh_ext_trans: "fresh_ext st st1 \<Longrightarrow> fresh_ext st1 st2 \<Longrightarrow> fresh_ext st st2"
  by (auto simp: fresh_ext_def)

lemma fresh_ext_grows: "fresh_ext st st' \<Longrightarrow> grows f st st'"
  by (auto simp: fresh_ext_def grows_def nth_append)

lemma fresh_ext_length: "fresh_ext st st' \<Longrightarrow> length st \<le> length st'"
  by (auto simp: fresh_ext_def)

lemma fresh_ext_nth: "fresh_ext st st' \<Longrightarrow> r < length st \<Longrightarrow> st' ! r = st ! r"
  by (auto simp: fresh_ext_def nth_append)

subsection \<open>Building literal nodes\<close>

lemma s_key_new [simp]: "s_key (new_PgNode_s p pol) = (pol, p)"
  by (simp add: s_key_def new_PgNode_s_def)

lemma mutex_new [simp]: "mutex (new_PgNode_s p pol) = []"
  by (simp add: new_PgNode_s_def)

lemma add_s_nodes_store:
  "fst (add_s_nodes st nodes ps pol) = st @ map (\<lambda>p. new_PgNode_s p pol) ps"
  by (induction ps arbitrary: st nodes) (simp_all add: Let_def)

lemma add_s_nodes_fresh: "fresh_ext st (fst (add_s_nodes st nodes ps pol))"
  by (simp add: add_s_nodes_store fresh_ext_def)

lemma add_s_nodes_length:
  "length (fst (add_s_nodes st nodes ps pol)) = length st + length ps"
  by (simp add: add_s_nodes_store)

lemma set_add_cases: "x \<in> set (set_add key st s y) \<Longrightarrow> x = y \<or> x \<in> set s"
  by (auto simp: set_set_add split: if_splits)

lemma add_s_nodes_refs:
  "x \<in> set (snd (add_s_nodes st nodes ps pol)) \<Longrightarrow>
   x \<in> set nodes \<or> (length st \<le> x \<and> x < length st + length ps)"
proof (induction ps arbitrary: st nodes)
  case Nil
  then show ?case by simp
next
  case (Cons p ps)
  let ?st = "st @ [new_PgNode_s p pol]"
  let ?nodes = "set_add s_key ?st nodes (length st)"
  from Cons.prems have "x \<in> set (snd (add_s_nodes ?st ?nodes ps pol))"
    by (simp add: Let_def)
  from Cons.IH [OF this]
  have "x \<in> set ?nodes \<or> (length ?st \<le> x \<and> x < length ?st + length ps)" .
  then show ?case
  proof
    assume "x \<in> set ?nodes"
    from set_add_cases [OF this] show ?thesis by auto
  next
    assume "length ?st \<le> x \<and> x < length ?st + length ps"
    then show ?thesis by auto
  qed
qed

lemma skeys_append:
  "set L \<subseteq> {..<length st} \<Longrightarrow> skeys (st @ new) L = skeys st L"
  unfolding skeys_def by (intro image_cong) (auto simp: nth_append)

lemma skeys_set_add: "skeys st (set_add s_key st s x) = insert (s_key (st ! x)) (skeys st s)"
  unfolding skeys_def by (rule keys_set_add)

lemma set_in_skeys: "set_in s_key st x s \<longleftrightarrow> s_key (st ! x) \<in> skeys st s"
  unfolding skeys_def by (rule set_in_iff)

lemma add_s_nodes_keys:
  assumes "set nodes \<subseteq> {..<length st}"
  shows "skeys (fst (add_s_nodes st nodes ps pol)) (snd (add_s_nodes st nodes ps pol)) =
         skeys st nodes \<union> Pair pol ` set ps"
  using assms
proof (induction ps arbitrary: st nodes)
  case Nil
  then show ?case by simp
next
  case (Cons p ps)
  let ?st = "st @ [new_PgNode_s p pol]"
  let ?nodes = "set_add s_key ?st nodes (length st)"
  have sub: "set ?nodes \<subseteq> {..<length ?st}"
    using Cons.prems by (auto dest!: set_add_cases)
  have "skeys ?st ?nodes = insert (pol, p) (skeys ?st nodes)"
    by (simp add: skeys_set_add)
  also have "skeys ?st nodes = skeys st nodes"
    by (rule skeys_append [OF Cons.prems])
  finally have k: "skeys ?st ?nodes = insert (pol, p) (skeys st nodes)" .
  show ?case
    using Cons.IH [OF sub] by (simp add: Let_def k)
qed

lemma add_s_nodes_valid:
  assumes "set nodes \<subseteq> {..<length st}"
  shows "set (snd (add_s_nodes st nodes ps pol)) \<subseteq> {..<length (fst (add_s_nodes st nodes ps pol))}"
  using assms by (auto simp: add_s_nodes_length dest!: add_s_nodes_refs)

lemma add_s_nodes_distinct:
  assumes "distinct nodes" "inj_on (\<lambda>r. s_key (st ! r)) (set nodes)" "set nodes \<subseteq> {..<length st}"
  shows "distinct (snd (add_s_nodes st nodes ps pol)) \<and>
         inj_on (\<lambda>r. s_key (fst (add_s_nodes st nodes ps pol) ! r)) (set (snd (add_s_nodes st nodes ps pol)))"
  using assms
proof (induction ps arbitrary: st nodes)
  case Nil
  then show ?case by simp
next
  case (Cons p ps)
  let ?st = "st @ [new_PgNode_s p pol]"
  let ?nodes = "set_add s_key ?st nodes (length st)"
  have "inj_on (\<lambda>r. s_key (?st ! r)) (set nodes) = inj_on (\<lambda>r. s_key (st ! r)) (set nodes)"
    by (rule inj_on_cong) (use Cons.prems(3) in \<open>auto simp: nth_append\<close>)
  with Cons.prems have inj: "inj_on (\<lambda>r. s_key (?st ! r)) (set nodes)"
    by simp
  have 1: "distinct ?nodes" by (rule distinct_set_add) (rule Cons.prems)
  have 2: "inj_on (\<lambda>r. s_key (?st ! r)) (set ?nodes)" by (rule inj_on_set_add) (rule inj)
  have 3: "set ?nodes \<subseteq> {..<length ?st}"
    using Cons.prems(3) by (auto dest!: set_add_cases)
  from Cons.IH [OF 1 2 3] show ?case
    by (simp add: Let_def)
qed

subsection \<open>Checking preconditions\<close>

lemma check_preconds_fresh: "fresh_ext st (fst (check_preconds st prev ps0 ps pol))"
proof (induction ps arbitrary: st ps0)
  case Nil
  then show ?case by (simp add: fresh_ext_refl)
next
  case (Cons p ps)
  let ?st = "st @ [new_PgNode_s p pol]"
  have a: "fresh_ext st ?st" by (simp add: fresh_ext_def)
  show ?case
  proof (cases "set_in s_key ?st (length st) prev")
    case True
    have "fresh_ext ?st (fst (check_preconds ?st prev (set_add s_key ?st ps0 (length st)) ps pol))"
      by (rule Cons.IH)
    with a True show ?thesis
      by (simp add: Let_def fresh_ext_trans [OF a])
  next
    case False
    with a show ?thesis by (simp add: Let_def)
  qed
qed

lemma check_preconds_ok:
  assumes "set prev \<subseteq> {..<length st}"
  shows "snd (snd (check_preconds st prev ps0 ps pol)) \<longleftrightarrow> (\<forall>p \<in> set ps. (pol, p) \<in> skeys st prev)"
  using assms
proof (induction ps arbitrary: st ps0)
  case Nil
  then show ?case by simp
next
  case (Cons p ps)
  let ?st = "st @ [new_PgNode_s p pol]"
  have k: "skeys ?st prev = skeys st prev"
    by (rule skeys_append [OF Cons.prems])
  have here: "set_in s_key ?st (length st) prev \<longleftrightarrow> (pol, p) \<in> skeys st prev"
    by (simp add: set_in_skeys k)
  have sub: "set prev \<subseteq> {..<length ?st}" using Cons.prems by auto
  show ?case
  proof (cases "(pol, p) \<in> skeys st prev")
    case True
    with here Cons.IH [OF sub, of "set_add s_key ?st ps0 (length st)"] show ?thesis
      by (simp add: Let_def k)
  next
    case False
    with here show ?thesis by (simp add: Let_def)
  qed
qed

subsection \<open>Building an action node\<close>

lemma precond_s_nodes_store:
  "fst (precond_s_nodes st act) =
   st @ map (\<lambda>p. new_PgNode_s p True) (precond_pos act) @ map (\<lambda>p. new_PgNode_s p False) (precond_neg act)"
  by (simp add: precond_s_nodes_def split_beta add_s_nodes_store)

lemma effect_s_nodes_store:
  "fst (effect_s_nodes st act) =
   st @ map (\<lambda>p. new_PgNode_s p True) (effect_add act) @ map (\<lambda>p. new_PgNode_s p False) (effect_rem act)"
  by (simp add: effect_s_nodes_def split_beta add_s_nodes_store)

lemma precond_s_nodes_keys:
  "skeys (fst (precond_s_nodes st act)) (snd (precond_s_nodes st act)) = pre_lits act"
proof -
  let ?X = "add_s_nodes st [] (precond_pos act) True"
  have v: "set (snd ?X) \<subseteq> {..<length (fst ?X)}"
    by (rule add_s_nodes_valid) simp
  have "skeys (fst ?X) (snd ?X) = Pair True ` set (precond_pos act)"
    using add_s_nodes_keys [of "[]" st "precond_pos act" True] by (simp add: skeys_def)
  with add_s_nodes_keys [OF v, of "precond_neg act" False] show ?thesis
    by (simp add: precond_s_nodes_def split_beta pre_lits_def)
qed

lemma effect_s_nodes_keys:
  "skeys (fst (effect_s_nodes st act)) (snd (effect_s_nodes st act)) = eff_lits act"
proof -
  let ?X = "add_s_nodes st [] (effect_add act) True"
  have v: "set (snd ?X) \<subseteq> {..<length (fst ?X)}"
    by (rule add_s_nodes_valid) simp
  have "skeys (fst ?X) (snd ?X) = Pair True ` set (effect_add act)"
    using add_s_nodes_keys [of "[]" st "effect_add act" True] by (simp add: skeys_def)
  with add_s_nodes_keys [OF v, of "effect_rem act" False] show ?thesis
    by (simp add: effect_s_nodes_def split_beta eff_lits_def)
qed

lemma precond_s_nodes_refs:
  assumes "x \<in> set (snd (precond_s_nodes st act))"
  shows "length st \<le> x \<and> x < length (fst (precond_s_nodes st act))"
proof -
  let ?X = "add_s_nodes st [] (precond_pos act) True"
  from assms have "x \<in> set (snd (add_s_nodes (fst ?X) (snd ?X) (precond_neg act) False))"
    by (simp add: precond_s_nodes_def split_beta)
  from add_s_nodes_refs [OF this]
  have "x \<in> set (snd ?X) \<or> (length (fst ?X) \<le> x \<and> x < length (fst ?X) + length (precond_neg act))" .
  then show ?thesis
  proof
    assume "x \<in> set (snd ?X)"
    from add_s_nodes_refs [OF this] show ?thesis
      by (simp add: precond_s_nodes_store)
  next
    assume "length (fst ?X) \<le> x \<and> x < length (fst ?X) + length (precond_neg act)"
    then show ?thesis
      by (simp add: precond_s_nodes_store add_s_nodes_length)
  qed
qed

lemma effect_s_nodes_refs:
  assumes "x \<in> set (snd (effect_s_nodes st act))"
  shows "length st \<le> x \<and> x < length (fst (effect_s_nodes st act))"
proof -
  let ?X = "add_s_nodes st [] (effect_add act) True"
  from assms have "x \<in> set (snd (add_s_nodes (fst ?X) (snd ?X) (effect_rem act) False))"
    by (simp add: effect_s_nodes_def split_beta)
  from add_s_nodes_refs [OF this]
  have "x \<in> set (snd ?X) \<or> (length (fst ?X) \<le> x \<and> x < length (fst ?X) + length (effect_rem act))" .
  then show ?thesis
  proof
    assume "x \<in> set (snd ?X)"
    from add_s_nodes_refs [OF this] show ?thesis
      by (simp add: effect_s_nodes_store)
  next
    assume "length (fst ?X) \<le> x \<and> x < length (fst ?X) + length (effect_rem act)"
    then show ?thesis
      by (simp add: effect_s_nodes_store add_s_nodes_length)
  qed
qed

lemma set_eq_skeys: "set_eq s_key st s t \<longleftrightarrow> skeys st s = skeys st t"
proof -
  have "(\<forall>x \<in> set s. set_in s_key st x t) \<longleftrightarrow> skeys st s \<subseteq> skeys st t" for s t
    by (auto simp: set_in_skeys skeys_def)
  then show ?thesis
    unfolding set_eq_def by blast
qed

lemma new_PgNode_a_fresh: "fresh_ext st (fst (new_PgNode_a st act))"
  by (auto simp: new_PgNode_a_def split_beta effect_s_nodes_store precond_s_nodes_store
        fresh_ext_def)

lemma new_PgNode_a_node:
  "mutex (snd (new_PgNode_a st act)) = [] \<and> action (snd (new_PgNode_a st act)) = act \<and>
   parents (snd (new_PgNode_a st act)) = [] \<and>
   effnodes (snd (new_PgNode_a st act)) = snd (effect_s_nodes (fst (precond_s_nodes st act)) act)"
  by (simp add: new_PgNode_a_def split_beta)

lemma new_PgNode_a_effnodes:
  assumes "x \<in> set (effnodes (snd (new_PgNode_a st act)))"
  shows "length st \<le> x \<and> x < length (fst (new_PgNode_a st act))"
proof -
  from assms have "x \<in> set (snd (effect_s_nodes (fst (precond_s_nodes st act)) act))"
    by (simp add: new_PgNode_a_node)
  from effect_s_nodes_refs [OF this] show ?thesis
    by (simp add: new_PgNode_a_def split_beta precond_s_nodes_store)
qed

lemma new_PgNode_a_eff_keys:
  "skeys (fst (new_PgNode_a st act)) (effnodes (snd (new_PgNode_a st act))) = eff_lits act"
  using effect_s_nodes_keys [of "fst (precond_s_nodes st act)" act]
  by (simp add: new_PgNode_a_def split_beta)

lemma new_PgNode_a_persistent:
  "is_persistent (snd (new_PgNode_a st act)) \<longleftrightarrow> pre_lits act = eff_lits act"
proof -
  let ?P = "precond_s_nodes st act"
  let ?E = "effect_s_nodes (fst ?P) act"
  have "set (snd ?P) \<subseteq> {..<length (fst ?P)}"
    using precond_s_nodes_refs [of _ st act] by auto
  moreover obtain new where "fst ?E = fst ?P @ new"
    by (simp add: effect_s_nodes_store)
  ultimately have "skeys (fst ?E) (snd ?P) = skeys (fst ?P) (snd ?P)"
    by (simp add: skeys_append)
  then have "skeys (fst ?E) (snd ?P) = pre_lits act"
    by (simp add: precond_s_nodes_keys)
  moreover have "skeys (fst ?E) (snd ?E) = eff_lits act"
    by (rule effect_s_nodes_keys)
  ultimately show ?thesis
    by (simp add: new_PgNode_a_def split_beta set_eq_skeys)
qed

subsection \<open>Linking the children\<close>

lemma link_children_length [simp]: "length (link_children st ast lvl ps a) = length st"
  by (induction lvl arbitrary: st) simp_all

lemma list_update_children:
  "\<exists>c. st[i := (st ! i)\<lparr>children := x\<rparr>] ! r = (st ! r)\<lparr>children := c\<rparr>"
proof (cases "r = i \<and> i < length st")
  case True
  then show ?thesis by auto
next
  case False
  then have "st[i := (st ! i)\<lparr>children := x\<rparr>] ! r = st ! r"
    by (cases "r = i") (auto simp: list_update_beyond)
  then have "st[i := (st ! i)\<lparr>children := x\<rparr>] ! r = (st ! r)\<lparr>children := children (st ! r)\<rparr>"
    by simp
  then show ?thesis ..
qed

lemma link_children_only_children:
  "\<exists>c. link_children st ast lvl ps a ! r = (st ! r)\<lparr>children := c\<rparr>"
proof (induction lvl arbitrary: st)
  case Nil
  have "st ! r = (st ! r)\<lparr>children := children (st ! r)\<rparr>" by simp
  then show ?case by (simp only: link_children.simps) (rule exI)
next
  case (Cons s lvl)
  let ?st = "if set_in s_key st s ps
     then st[s := (st ! s)\<lparr>children := set_add a_key ast (children (st ! s)) a\<rparr>] else st"
  obtain c where c: "link_children ?st ast lvl ps a ! r = (?st ! r)\<lparr>children := c\<rparr>"
    using Cons.IH by blast
  obtain c' where c': "?st ! r = (st ! r)\<lparr>children := c'\<rparr>"
  proof (cases "set_in s_key st s ps")
    case True
    then show ?thesis using list_update_children [of st s _ r] that by auto
  next
    case False
    have "st ! r = (st ! r)\<lparr>children := children (st ! r)\<rparr>" by simp
    with False that [of "children (st ! r)"] show ?thesis by simp
  qed
  have "link_children st ast (s # lvl) ps a ! r = (st ! r)\<lparr>children := c\<rparr>"
    using c c' by simp
  then show ?case ..
qed

lemma link_children_key [simp]: "s_key (link_children st ast lvl ps a ! r) = s_key (st ! r)"
proof -
  obtain c where "link_children st ast lvl ps a ! r = (st ! r)\<lparr>children := c\<rparr>"
    using link_children_only_children by blast
  then show ?thesis by (simp add: s_key_def)
qed

lemma link_children_mutex [simp]: "mutex (link_children st ast lvl ps a ! r) = mutex (st ! r)"
proof -
  obtain c where "link_children st ast lvl ps a ! r = (st ! r)\<lparr>children := c\<rparr>"
    using link_children_only_children by blast
  then show ?thesis by simp
qed

lemma link_children_grows: "grows s_key st (link_children st ast lvl ps a)"
  by (auto simp: grows_def)

lemma link_children_skeys [simp]: "skeys (link_children st ast lvl ps a) L = skeys st L"
  by (simp add: skeys_def)

lemma extends_refl: "extends g g"
  by (simp add: extends_def grows_refl)

lemma extends_trans: "extends g g1 \<Longrightarrow> extends g1 g2 \<Longrightarrow> extends g g2"
  unfolding extends_def using grows_trans by metis

subsection \<open>One action of an action level\<close>

lemma checked_fresh:
  "fresh_ext st
     (fst (if snd (snd (check_preconds st prev [] pp True))
           then check_preconds (fst (check_preconds st prev [] pp True)) prev
                  (fst (snd (check_preconds st prev [] pp True))) pn False
           else (fst (check_preconds st prev [] pp True),
                 fst (snd (check_preconds st prev [] pp True)), False)))"
  using check_preconds_fresh [of st prev "[]" pp True]
    fresh_ext_trans [OF check_preconds_fresh check_preconds_fresh]
  by simp

lemma checked_ok:
  assumes pv: "set prev \<subseteq> {..<length st}"
  shows "snd (snd (if snd (snd (check_preconds st prev [] (precond_pos act) True))
           then check_preconds (fst (check_preconds st prev [] (precond_pos act) True)) prev
                  (fst (snd (check_preconds st prev [] (precond_pos act) True))) (precond_neg act) False
           else (fst (check_preconds st prev [] (precond_pos act) True),
                 fst (snd (check_preconds st prev [] (precond_pos act) True)), False)))
         \<longleftrightarrow> preconds_hold st prev act"
proof -
  let ?C1 = "check_preconds st prev [] (precond_pos act) True"
  have 1: "snd (snd ?C1) \<longleftrightarrow> (\<forall>p \<in> set (precond_pos act). (True, p) \<in> skeys st prev)"
    by (rule check_preconds_ok [OF pv])
  obtain new where new: "fst ?C1 = st @ new"
    using check_preconds_fresh [of st prev "[]" "precond_pos act" True]
    by (auto simp: fresh_ext_def)
  then have pv1: "set prev \<subseteq> {..<length (fst ?C1)}"
    using pv by auto
  have k: "skeys (fst ?C1) prev = skeys st prev"
    unfolding new by (rule skeys_append [OF pv])
  have 2: "snd (snd (check_preconds (fst ?C1) prev (fst (snd ?C1)) (precond_neg act) False))
      \<longleftrightarrow> (\<forall>p \<in> set (precond_neg act). (False, p) \<in> skeys st prev)"
    using check_preconds_ok [OF pv1, of "fst (snd ?C1)" "precond_neg act" False]
    by (simp add: k)
  have 3: "preconds_hold st prev act \<longleftrightarrow>
     (\<forall>p \<in> set (precond_pos act). (True, p) \<in> skeys st prev) \<and>
     (\<forall>p \<in> set (precond_neg act). (False, p) \<in> skeys st prev)"
    unfolding preconds_hold_def pre_lits_def by blast
  show ?thesis
    unfolding 3 using 1 2 by simp
qed

lemma append_update_last: "(xs @ [x])[length xs := y] = xs @ [y]"
  by simp

lemma add_action_cases:
  assumes lv: "level < length (a_levels g)" and pv: "set prev \<subseteq> {..<length (s_store g)}"
  shows "(\<not> preconds_hold (s_store g) prev act \<and>
          (\<exists>st. add_action g level prev act = Inr (g\<lparr>s_store := st\<rparr>) \<and>
                fresh_ext (s_store g) st)) \<or>
         (preconds_hold (s_store g) prev act \<and>
          (\<exists>st node.
             add_action g level prev act =
               Inr (g\<lparr>s_store := st, a_store := a_store g @ [node],
                      a_levels := (a_levels g)
                        [level := set_add a_key (a_store g @ [node]) (a_levels g ! level)
                                    (length (a_store g))]\<rparr>) \<and>
             grows s_key (s_store g) st \<and> mutex node = [] \<and> action node = act \<and>
             (\<forall>x \<in> set (effnodes node). length (s_store g) \<le> x \<and> x < length st) \<and>
             skeys st (effnodes node) = eff_lits act \<and>
             is_persistent node = (pre_lits act = eff_lits act)))"
proof -
  let ?C1 = "check_preconds (s_store g) prev [] (precond_pos act) True"
  let ?C2 = "if snd (snd ?C1)
             then check_preconds (fst ?C1) prev (fst (snd ?C1)) (precond_neg act) False
             else (fst ?C1, fst (snd ?C1), False)"
  have fr: "fresh_ext (s_store g) (fst ?C2)"
    by (rule checked_fresh)
  have ok: "snd (snd ?C2) \<longleftrightarrow> preconds_hold (s_store g) prev act"
    by (rule checked_ok [OF pv])
  show ?thesis
  proof (cases "preconds_hold (s_store g) prev act")
    case False
    with ok have "\<not> snd (snd ?C2)" by simp
    then have "add_action g level prev act = Inr (g\<lparr>s_store := fst ?C2\<rparr>)"
      by (simp add: add_action_def split_beta)
    with fr False show ?thesis by blast
  next
    case True
    with ok have ok2: "snd (snd ?C2)" by simp
    let ?N = "new_PgNode_a (fst ?C2) act"
    let ?ast = "a_store g @ [snd ?N]"
    let ?st4 = "link_children (fst ?N) ?ast (s_levels g ! level) (fst (snd ?C2)) (length (a_store g))"
    let ?node = "(snd ?N)\<lparr>parents := set_update s_key ?st4 (parents (snd ?N)) (fst (snd ?C2))\<rparr>"
    have eq: "add_action g level prev act =
               Inr (g\<lparr>s_store := ?st4, a_store := a_store g @ [?node],
                      a_levels := (a_levels g)
                        [level := set_add a_key (a_store g @ [?node]) (a_levels g ! level)
                                    (length (a_store g))]\<rparr>)"
      using ok2 lv by (simp add: add_action_def split_beta Let_def)
    have g1: "grows s_key (s_store g) (fst ?N)"
      by (rule fresh_ext_grows [OF fresh_ext_trans [OF fr new_PgNode_a_fresh]])
    have g2: "grows s_key (s_store g) ?st4"
      by (rule grows_trans [OF g1 link_children_grows])
    have l1: "length (s_store g) \<le> length (fst ?C2)"
      by (rule fresh_ext_length [OF fr])
    have eff: "\<forall>x \<in> set (effnodes ?node). length (s_store g) \<le> x \<and> x < length ?st4"
    proof
      fix x assume "x \<in> set (effnodes ?node)"
      then have "x \<in> set (effnodes (snd ?N))" by simp
      from new_PgNode_a_effnodes [OF this] l1
      show "length (s_store g) \<le> x \<and> x < length ?st4" by simp
    qed
    have keys: "skeys ?st4 (effnodes ?node) = eff_lits act"
      by (simp add: new_PgNode_a_eff_keys)
    have pers: "is_persistent ?node = (pre_lits act = eff_lits act)"
      by (simp add: new_PgNode_a_persistent)
    have m: "mutex ?node = []" "action ?node = act"
      by (simp_all add: new_PgNode_a_node)
    from True eq g2 m eff keys pers show ?thesis
      by blast
  qed
qed

lemma grows_skeys:
  assumes g: "grows s_key st st'" and v: "set L \<subseteq> {..<length st}"
  shows "skeys st' L = skeys st L"
  unfolding skeys_def
proof (rule image_cong [OF refl])
  fix r assume "r \<in> set L"
  with v have "r < length st" by auto
  with g show "s_key (st' ! r) = s_key (st ! r)" by (simp add: grows_def)
qed

lemma grows_length: "grows f st st' \<Longrightarrow> length st \<le> length st'"
  by (simp add: grows_def)

lemma node_new_mono:
  assumes n: "node_new n0 m0 ok st ast a" and g: "grows s_key st st'"
  shows "node_new n0 m0 ok st' (ast @ new) a"
proof -
  from n have a: "a < length ast" and m: "m0 \<le> a"
    and e: "\<And>e. e \<in> set (effnodes (ast ! a)) \<Longrightarrow> n0 \<le> e \<and> e < length st"
    and k: "skeys st (effnodes (ast ! a)) = eff_lits (action (ast ! a))"
    and p: "is_persistent (ast ! a) = (pre_lits (action (ast ! a)) = eff_lits (action (ast ! a)))"
    and o: "ok (action (ast ! a))"
    by (simp_all add: node_new_def)
  from a have same: "(ast @ new) ! a = ast ! a" by (simp add: nth_append)
  have v: "set (effnodes (ast ! a)) \<subseteq> {..<length st}" using e by auto
  have k': "skeys st' (effnodes (ast ! a)) = eff_lits (action (ast ! a))"
    using grows_skeys [OF g v] k by simp
  have e': "\<forall>e \<in> set (effnodes (ast ! a)). n0 \<le> e \<and> e < length st'"
    using e grows_length [OF g] by fastforce
  from a m e' k' p o show ?thesis
    unfolding node_new_def same by simp
qed

lemma a_level_new_mono:
  assumes n: "a_level_new n0 m0 ok st ast L" and g: "grows s_key st st'"
  shows "a_level_new n0 m0 ok st' (ast @ new) L"
proof -
  from n have d: "distinct L" and inj: "inj_on (\<lambda>r. a_key (ast ! r)) (set L)"
    and nn: "\<And>a. a \<in> set L \<Longrightarrow> node_new n0 m0 ok st ast a"
    by (simp_all add: a_level_new_def)
  have "inj_on (\<lambda>r. a_key ((ast @ new) ! r)) (set L) = inj_on (\<lambda>r. a_key (ast ! r)) (set L)"
  proof (rule inj_on_cong)
    fix r assume "r \<in> set L"
    from nn [OF this] have "r < length ast" by (simp add: node_new_def)
    then show "a_key ((ast @ new) ! r) = a_key (ast ! r)" by (simp add: nth_append)
  qed
  with inj have inj': "inj_on (\<lambda>r. a_key ((ast @ new) ! r)) (set L)" by simp
  have "\<forall>a \<in> set L. node_new n0 m0 ok st' (ast @ new) a"
    using nn node_new_mono [OF _ g] by blast
  with d inj' show ?thesis by (simp add: a_level_new_def)
qed

lemma a_level_new_add:
  assumes n: "a_level_new n0 m0 ok st ast L" and nn: "node_new n0 m0 ok st (ast @ [node]) (length ast)"
  shows "a_level_new n0 m0 ok st (ast @ [node]) (set_add a_key (ast @ [node]) L (length ast))"
proof -
  have n': "a_level_new n0 m0 ok st (ast @ [node]) L"
    by (rule a_level_new_mono [OF n grows_refl])
  let ?L = "set_add a_key (ast @ [node]) L (length ast)"
  from n' have "distinct ?L"
    by (simp add: a_level_new_def distinct_set_add)
  moreover from n' have "inj_on (\<lambda>r. a_key ((ast @ [node]) ! r)) (set ?L)"
    by (simp add: a_level_new_def inj_on_set_add)
  moreover have "\<forall>a \<in> set ?L. node_new n0 m0 ok st (ast @ [node]) a"
  proof
    fix a assume "a \<in> set ?L"
    from set_add_cases [OF this] n' nn show "node_new n0 m0 ok st (ast @ [node]) a"
      by (auto simp: a_level_new_def)
  qed
  ultimately show ?thesis by (simp add: a_level_new_def)
qed

lemma a_key_act_key:
  "is_persistent node = (pre_lits (action node) = eff_lits (action node)) \<Longrightarrow>
   a_key node = act_key (action node)"
  by (simp add: a_key_def act_key_def)

lemma fresh_snoc_grows: "mutex node = [] \<Longrightarrow> grows f ast (ast @ [node])"
  by (rule fresh_ext_grows) (simp add: fresh_ext_def)

lemma add_action_building:
  assumes b: "building g0 level prev acts g" and lv: "level < length (a_levels g0)"
    and pv: "set prev \<subseteq> {..<length (s_store g0)}" and act: "act \<in> set (all_actions g0)"
  shows "\<exists>g'. add_action g level prev act = Inr g' \<and> building g0 level prev (acts @ [act]) g'"
proof -
  let ?ok = "\<lambda>act. act \<in> set (all_actions g0) \<and> preconds_hold (s_store g0) prev act"
  let ?n0 = "length (s_store g0)" and ?m0 = "length (a_store g0)"
  let ?L = "a_levels g ! level"
  from b have ext: "extends g0 g" and sl: "s_levels g = s_levels g0"
    and al: "length (a_levels g) = length (a_levels g0)"
    and oth: "\<And>i. i \<noteq> level \<Longrightarrow> a_levels g ! i = a_levels g0 ! i"
    and new: "a_level_new ?n0 ?m0 ?ok (s_store g) (a_store g) ?L"
    and cov: "\<And>a. a \<in> set acts \<Longrightarrow> preconds_hold (s_store g0) prev a \<Longrightarrow>
         act_key a \<in> (\<lambda>r. a_key (a_store g ! r)) ` set ?L"
    by (simp_all add: building_def)
  from ext have gs: "grows s_key (s_store g0) (s_store g)"
    and ga: "grows a_fix (a_store g0) (a_store g)"
    by (simp_all add: extends_def)
  have lv': "level < length (a_levels g)" using lv al by simp
  have pv': "set prev \<subseteq> {..<length (s_store g)}"
    using pv grows_length [OF gs] by auto
  have ph: "preconds_hold (s_store g) prev act = preconds_hold (s_store g0) prev act"
    by (simp add: preconds_hold_def grows_skeys [OF gs pv])
  from add_action_cases [OF lv' pv', of act] show ?thesis
  proof (elim disjE conjE exE)
    fix st
    assume nh: "\<not> preconds_hold (s_store g) prev act"
      and eq: "add_action g level prev act = Inr (g\<lparr>s_store := st\<rparr>)"
      and fr: "fresh_ext (s_store g) st"
    let ?g = "g\<lparr>s_store := st\<rparr>"
    have g1: "grows s_key (s_store g) st" by (rule fresh_ext_grows [OF fr])
    have "extends g0 ?g"
      using ext grows_trans [OF gs g1] by (simp add: extends_def)
    moreover have "a_level_new ?n0 ?m0 ?ok st (a_store g) ?L"
      using a_level_new_mono [OF new g1, of "[]"] by simp
    moreover have "\<forall>a \<in> set (acts @ [act]). preconds_hold (s_store g0) prev a \<longrightarrow>
         act_key a \<in> (\<lambda>r. a_key (a_store g ! r)) ` set ?L"
      using cov nh ph by auto
    ultimately have "building g0 level prev (acts @ [act]) ?g"
      using sl al oth by (simp add: building_def)
    with eq show ?thesis by blast
  next
    fix st node
    assume h: "preconds_hold (s_store g) prev act"
      and eq: "add_action g level prev act =
               Inr (g\<lparr>s_store := st, a_store := a_store g @ [node],
                      a_levels := (a_levels g)
                        [level := set_add a_key (a_store g @ [node]) (a_levels g ! level)
                                    (length (a_store g))]\<rparr>)"
      and g1: "grows s_key (s_store g) st" and m: "mutex node = []" and an: "action node = act"
      and en: "\<forall>x \<in> set (effnodes node). length (s_store g) \<le> x \<and> x < length st"
      and ek: "skeys st (effnodes node) = eff_lits act"
      and pe: "is_persistent node = (pre_lits act = eff_lits act)"
    let ?A = "a_store g @ [node]"
    let ?L' = "set_add a_key ?A ?L (length (a_store g))"
    let ?g = "g\<lparr>s_store := st, a_store := ?A, a_levels := (a_levels g)[level := ?L']\<rparr>"
    have "extends g0 ?g"
      using ext grows_trans [OF gs g1] grows_trans [OF ga fresh_snoc_grows [OF m]]
      by (simp add: extends_def)
    moreover have lev: "a_levels ?g ! level = ?L'"
      using lv' by simp
    moreover have "\<forall>i. i \<noteq> level \<longrightarrow> a_levels ?g ! i = a_levels g0 ! i"
      using oth by simp
    moreover have newL: "a_level_new ?n0 ?m0 ?ok st ?A ?L'"
    proof (rule a_level_new_add)
      show "a_level_new ?n0 ?m0 ?ok st (a_store g) ?L"
        using a_level_new_mono [OF new g1, of "[]"] by simp
      have "\<forall>e \<in> set (effnodes node). ?n0 \<le> e \<and> e < length st"
        using en grows_length [OF gs] by fastforce
      then show "node_new ?n0 ?m0 ?ok st ?A (length (a_store g))"
        using grows_length [OF ga] ek pe an act h ph by (simp add: node_new_def)
    qed
    moreover have "\<forall>a \<in> set (acts @ [act]). preconds_hold (s_store g0) prev a \<longrightarrow>
         act_key a \<in> (\<lambda>r. a_key (?A ! r)) ` set ?L'"
    proof (intro ballI impI)
      fix a assume a: "a \<in> set (acts @ [act])" and pa: "preconds_hold (s_store g0) prev a"
      have keys: "(\<lambda>r. a_key (?A ! r)) ` set ?L' =
                  insert (a_key node) ((\<lambda>r. a_key (?A ! r)) ` set ?L)"
        using keys_set_add [of a_key ?A ?L "length (a_store g)"] by simp
      have old: "(\<lambda>r. a_key (?A ! r)) ` set ?L = (\<lambda>r. a_key (a_store g ! r)) ` set ?L"
      proof (rule image_cong [OF refl])
        fix r assume "r \<in> set ?L"
        with new have "r < length (a_store g)" by (simp add: a_level_new_def node_new_def)
        then show "a_key (?A ! r) = a_key (a_store g ! r)" by (simp add: nth_append)
      qed
      show "act_key a \<in> (\<lambda>r. a_key (?A ! r)) ` set ?L'"
      proof (cases "a \<in> set acts")
        case True
        from cov [OF True pa] show ?thesis unfolding keys old by simp
      next
        case False
        with a have "a = act" by simp
        moreover have "a_key node = act_key act"
          using a_key_act_key [of node] pe an by simp
        ultimately show ?thesis unfolding keys by simp
      qed
    qed
    ultimately have "building g0 level prev (acts @ [act]) ?g"
      using sl al by (simp add: building_def)
    with eq show ?thesis by blast
  qed
qed

lemma add_actions_building:
  assumes b: "building g0 level prev done g" and lv: "level < length (a_levels g0)"
    and pv: "set prev \<subseteq> {..<length (s_store g0)}" and acts: "set acts \<subseteq> set (all_actions g0)"
  shows "\<exists>g'. add_actions g level prev acts = Inr g' \<and> building g0 level prev (done @ acts) g'"
  using b acts
proof (induction acts arbitrary: g "done")
  case Nil
  then show ?case by simp
next
  case (Cons act acts)
  from Cons.prems have "act \<in> set (all_actions g0)" by simp
  from add_action_building [OF Cons.prems(1) lv pv this]
  obtain g1 where g1: "add_action g level prev act = Inr g1"
    "building g0 level prev (done @ [act]) g1" by blast
  from Cons.prems have "set acts \<subseteq> set (all_actions g0)" by simp
  from Cons.IH [OF g1(2) this]
  obtain g' where "add_actions g1 level prev acts = Inr g'"
    "building g0 level prev ((done @ [act]) @ acts) g'" by blast
  with g1(1) show ?case by simp
qed

subsection \<open>A whole action level\<close>

lemma extends_levels [simp]:
  "extends (g\<lparr>a_levels := x\<rparr>) g' = extends g g'"
  "extends (g\<lparr>s_levels := y\<rparr>) g' = extends g g'"
  by (simp_all add: extends_def)

lemma add_action_level_spec:
  assumes al: "length (a_levels g) = level" and sl: "level < length (s_levels g)"
    and pv: "set (s_levels g ! level) \<subseteq> {..<length (s_store g)}"
  shows "\<exists>g' L. add_action_level g level = Inr g' \<and> extends g g' \<and>
           s_levels g' = s_levels g \<and> a_levels g' = a_levels g @ [L] \<and>
           a_level_new (length (s_store g)) (length (a_store g))
             (\<lambda>act. act \<in> set (all_actions g) \<and> preconds_hold (s_store g) (s_levels g ! level) act)
             (s_store g') (a_store g') L \<and>
           (\<forall>act \<in> set (all_actions g). preconds_hold (s_store g) (s_levels g ! level) act \<longrightarrow>
              act_key act \<in> (\<lambda>r. a_key (a_store g' ! r)) ` set L)"
proof -
  let ?g0 = "g\<lparr>a_levels := a_levels g @ [[]]\<rparr>"
  let ?prev = "s_levels g ! level"
  have lv: "level < length (a_levels ?g0)" using al by simp
  have lev0: "a_levels ?g0 ! level = []" using al by (simp add: nth_append)
  have b0: "building ?g0 level ?prev [] ?g0"
    unfolding building_def lev0 by (simp add: extends_refl a_level_new_def)
  have pv0: "set ?prev \<subseteq> {..<length (s_store ?g0)}" using pv by simp
  from add_actions_building [OF b0 lv pv0, of "all_actions ?g0"]
  obtain g' where g': "add_actions ?g0 level ?prev (all_actions ?g0) = Inr g'"
    and b: "building ?g0 level ?prev (all_actions ?g0) g'"
    by auto
  from b have ext: "extends g g'" and sl': "s_levels g' = s_levels g"
    and len: "length (a_levels g') = Suc level"
    and oth: "\<And>i. i \<noteq> level \<Longrightarrow> a_levels g' ! i = (a_levels g @ [[]]) ! i"
    and new: "a_level_new (length (s_store g)) (length (a_store g))
             (\<lambda>act. act \<in> set (all_actions g) \<and> preconds_hold (s_store g) ?prev act)
             (s_store g') (a_store g') (a_levels g' ! level)"
    and cov: "\<forall>act \<in> set (all_actions g). preconds_hold (s_store g) ?prev act \<longrightarrow>
              act_key act \<in> (\<lambda>r. a_key (a_store g' ! r)) ` set (a_levels g' ! level)"
    using al by (simp_all add: building_def)
  have lv_eq: "a_levels g' = a_levels g @ [a_levels g' ! level]"
  proof (rule nth_equalityI)
    show "length (a_levels g') = length (a_levels g @ [a_levels g' ! level])"
      using len al by simp
    fix i assume "i < length (a_levels g')"
    then have i: "i < Suc level" using len by simp
    show "a_levels g' ! i = (a_levels g @ [a_levels g' ! level]) ! i"
    proof (cases "i = level")
      case True
      then show ?thesis using al by (simp add: nth_append)
    next
      case False
      with i al oth [OF False] show ?thesis by (simp add: nth_append)
    qed
  qed
  have "add_action_level g level = Inr g'"
    using g' sl by (simp add: add_action_level_def Let_def)
  with ext sl' lv_eq new cov show ?thesis by blast
qed

subsection \<open>Adding the literals of an action level\<close>

lemma same_refl: "same f st st"
  by (simp add: same_def)

lemma same_trans: "same f st st1 \<Longrightarrow> same f st1 st2 \<Longrightarrow> same f st st2"
  by (simp add: same_def)

lemma same_grows: "same f st st' \<Longrightarrow> grows f st st'"
  by (auto simp: same_def grows_def)

lemma list_update_parents:
  "\<exists>c. st[i := (st ! i)\<lparr>parents := x\<rparr>] ! r = (st ! r)\<lparr>parents := c\<rparr>"
proof (cases "r = i \<and> i < length st")
  case True
  then show ?thesis by auto
next
  case False
  then have "st[i := (st ! i)\<lparr>parents := x\<rparr>] ! r = st ! r"
    by (cases "r = i") (auto simp: list_update_beyond)
  then have "st[i := (st ! i)\<lparr>parents := x\<rparr>] ! r = (st ! r)\<lparr>parents := parents (st ! r)\<rparr>"
    by simp
  then show ?thesis ..
qed

lemma same_parents: "same s_key st (st[i := (st ! i)\<lparr>parents := x\<rparr>])"
proof -
  have "s_key (st[i := (st ! i)\<lparr>parents := x\<rparr>] ! r) = s_key (st ! r) \<and>
        mutex (st[i := (st ! i)\<lparr>parents := x\<rparr>] ! r) = mutex (st ! r)" for r
  proof -
    obtain c where "st[i := (st ! i)\<lparr>parents := x\<rparr>] ! r = (st ! r)\<lparr>parents := c\<rparr>"
      using list_update_parents by blast
    then show ?thesis by (simp add: s_key_def)
  qed
  then show ?thesis by (simp add: same_def)
qed

lemma same_children: "same a_fix ast (ast[i := (ast ! i)\<lparr>children := x\<rparr>])"
proof -
  have "a_fix (ast[i := (ast ! i)\<lparr>children := x\<rparr>] ! r) = a_fix (ast ! r) \<and>
        mutex (ast[i := (ast ! i)\<lparr>children := x\<rparr>] ! r) = mutex (ast ! r)" for r
  proof -
    obtain c where "ast[i := (ast ! i)\<lparr>children := x\<rparr>] ! r = (ast ! r)\<lparr>children := c\<rparr>"
      using list_update_children by blast
    then show ?thesis by (simp add: a_fix_def)
  qed
  then show ?thesis by (simp add: same_def)
qed

lemma same_set_add:
  assumes "same s_key st st'"
  shows "set_add s_key st' L e = set_add s_key st L e"
  using assms by (simp add: same_def set_add_def set_in_def)

lemma same_set_update:
  assumes "same s_key st st'"
  shows "set_update s_key st' L es = set_update s_key st L es"
  unfolding set_update_def
  by (induction es arbitrary: L) (simp_all add: same_set_add [OF assms])

lemma set_update_Cons:
  "set_update key st L (e # es) = set_update key st (set_add key st L e) es"
  by (simp add: set_update_def)

lemma set_update_append:
  "set_update key st L (xs @ ys) = set_update key st (set_update key st L xs) ys"
  by (simp add: set_update_def)

lemma add_effnodes_spec:
  assumes "level < length (s_levels g)"
  shows "\<exists>st ast. add_effnodes g level a effs =
           Inr (g\<lparr>s_store := st, a_store := ast,
                  s_levels := (s_levels g)
                    [level := set_update s_key (s_store g) (s_levels g ! level) effs]\<rparr>) \<and>
           same s_key (s_store g) st \<and> same a_fix (a_store g) ast"
  using assms
proof (induction effs arbitrary: g)
  case Nil
  have "g = g\<lparr>s_store := s_store g, a_store := a_store g, s_levels := s_levels g\<rparr>" by simp
  then have "add_effnodes g level a [] =
      Inr (g\<lparr>s_store := s_store g, a_store := a_store g,
             s_levels := (s_levels g)[level := set_update s_key (s_store g) (s_levels g ! level) []]\<rparr>)"
    by (simp add: set_update_def)
  with same_refl [of s_key "s_store g"] same_refl [of a_fix "a_store g"] show ?case
    by blast
next
  case (Cons e effs)
  let ?st = "(s_store g)[e := (s_store g ! e)
                \<lparr>parents := set_add a_key (a_store g) (parents (s_store g ! e)) a\<rparr>]"
  let ?ast = "(a_store g)[a := (a_store g ! a)
                \<lparr>children := set_add s_key ?st (children (a_store g ! a)) e\<rparr>]"
  let ?L = "set_add s_key ?st (s_levels g ! level) e"
  let ?g = "g\<lparr>s_store := ?st, a_store := ?ast, s_levels := (s_levels g)[level := ?L]\<rparr>"
  have s1: "same s_key (s_store g) ?st" by (rule same_parents)
  have a1: "same a_fix (a_store g) ?ast" by (rule same_children)
  have lv: "level < length (s_levels ?g)" using Cons.prems by simp
  from Cons.IH [OF lv] obtain st ast where
    eq: "add_effnodes ?g level a effs =
           Inr (?g\<lparr>s_store := st, a_store := ast,
                  s_levels := (s_levels ?g)
                    [level := set_update s_key (s_store ?g) (s_levels ?g ! level) effs]\<rparr>)"
    and s2: "same s_key (s_store ?g) st" and a2: "same a_fix (a_store ?g) ast"
    by blast
  have step: "add_effnodes g level a (e # effs) = add_effnodes ?g level a effs"
    using Cons.prems by (simp add: Let_def)
  have L: "set_update s_key ?st ?L effs = set_update s_key (s_store g) (s_levels g ! level) (e # effs)"
    by (simp add: set_update_Cons same_set_add [OF s1] same_set_update [OF s1])
  have "add_effnodes g level a (e # effs) =
           Inr (g\<lparr>s_store := st, a_store := ast,
                  s_levels := (s_levels g)
                    [level := set_update s_key (s_store g) (s_levels g ! level) (e # effs)]\<rparr>)"
    unfolding step eq using Cons.prems by (simp add: L)
  moreover from s2 have "same s_key (s_store g) st"
    by (intro same_trans [OF s1]) simp
  moreover from a2 have "same a_fix (a_store g) ast"
    by (intro same_trans [OF a1]) simp
  ultimately show ?case by blast
qed

lemma same_effnodes: "same a_fix ast ast' \<Longrightarrow> effnodes (ast' ! a) = effnodes (ast ! a)"
  by (simp add: same_def a_fix_def)

lemma same_action: "same a_fix ast ast' \<Longrightarrow> action (ast' ! a) = action (ast ! a)"
  by (simp add: same_def a_fix_def)

lemma same_a_key: "same a_fix ast ast' \<Longrightarrow> a_key (ast' ! a) = a_key (ast ! a)"
  by (simp add: same_def a_fix_def a_key_def)

lemma same_s_key: "same s_key st st' \<Longrightarrow> s_key (st' ! r) = s_key (st ! r)"
  by (simp add: same_def)

lemma same_mutex: "same f st st' \<Longrightarrow> mutex (st' ! r) = mutex (st ! r)"
  by (simp add: same_def)

lemma same_length: "same f st st' \<Longrightarrow> length st' = length st"
  by (simp add: same_def)

lemma same_skeys: "same s_key st st' \<Longrightarrow> skeys st' L = skeys st L"
  by (simp add: skeys_def same_def)

lemma add_literals_spec:
  assumes "level < length (s_levels g)"
  shows "\<exists>st ast. add_literals g level pre =
           Inr (g\<lparr>s_store := st, a_store := ast,
                  s_levels := (s_levels g)
                    [level := set_update s_key (s_store g) (s_levels g ! level)
                       (concat (map (\<lambda>a. effnodes (a_store g ! a)) pre))]\<rparr>) \<and>
           same s_key (s_store g) st \<and> same a_fix (a_store g) ast"
  using assms
proof (induction pre arbitrary: g)
  case Nil
  have "g = g\<lparr>s_store := s_store g, a_store := a_store g, s_levels := s_levels g\<rparr>" by simp
  then have "add_literals g level [] =
      Inr (g\<lparr>s_store := s_store g, a_store := a_store g,
             s_levels := (s_levels g)[level := set_update s_key (s_store g) (s_levels g ! level)
                (concat (map (\<lambda>a. effnodes (a_store g ! a)) []))]\<rparr>)"
    by (simp add: set_update_def)
  with same_refl [of s_key "s_store g"] same_refl [of a_fix "a_store g"] show ?case
    by blast
next
  case (Cons a pre)
  let ?E = "effnodes (a_store g ! a)"
  let ?L1 = "set_update s_key (s_store g) (s_levels g ! level) ?E"
  from add_effnodes_spec [OF Cons.prems, of a ?E] obtain st1 ast1 where
    e1: "add_effnodes g level a ?E =
           Inr (g\<lparr>s_store := st1, a_store := ast1, s_levels := (s_levels g)[level := ?L1]\<rparr>)"
    and s1: "same s_key (s_store g) st1" and a1: "same a_fix (a_store g) ast1"
    by blast
  let ?g1 = "g\<lparr>s_store := st1, a_store := ast1, s_levels := (s_levels g)[level := ?L1]\<rparr>"
  have lv: "level < length (s_levels ?g1)" using Cons.prems by simp
  from Cons.IH [OF lv] obtain st ast where
    e2: "add_literals ?g1 level pre =
           Inr (?g1\<lparr>s_store := st, a_store := ast,
                  s_levels := (s_levels ?g1)
                    [level := set_update s_key (s_store ?g1) (s_levels ?g1 ! level)
                       (concat (map (\<lambda>a. effnodes (a_store ?g1 ! a)) pre))]\<rparr>)"
    and s2: "same s_key (s_store ?g1) st" and a2: "same a_fix (a_store ?g1) ast"
    by blast
  have m: "map (\<lambda>a. effnodes (ast1 ! a)) pre = map (\<lambda>a. effnodes (a_store g ! a)) pre"
    by (simp add: same_effnodes [OF a1])
  have L: "set_update s_key st1 ?L1 (concat (map (\<lambda>a. effnodes (ast1 ! a)) pre)) =
           set_update s_key (s_store g) (s_levels g ! level)
             (concat (map (\<lambda>a. effnodes (a_store g ! a)) (a # pre)))"
    by (simp add: m same_set_update [OF s1] set_update_append)
  have "add_literals g level (a # pre) =
           Inr (g\<lparr>s_store := st, a_store := ast,
                  s_levels := (s_levels g)
                    [level := set_update s_key (s_store g) (s_levels g ! level)
                       (concat (map (\<lambda>a. effnodes (a_store g ! a)) (a # pre)))]\<rparr>)"
    using e1 e2 Cons.prems L by simp
  moreover from s2 have "same s_key (s_store g) st"
    by (intro same_trans [OF s1]) simp
  moreover from a2 have "same a_fix (a_store g) ast"
    by (intro same_trans [OF a1]) simp
  ultimately show ?case by blast
qed

lemma add_literal_level_spec:
  assumes sl: "length (s_levels g) = Suc l" and al: "l < length (a_levels g)"
  shows "\<exists>st ast. add_literal_level g (Suc l) =
           Inr (g\<lparr>s_store := st, a_store := ast,
                  s_levels := s_levels g @
                    [set_update s_key (s_store g) []
                       (concat (map (\<lambda>a. effnodes (a_store g ! a)) (a_levels g ! l)))]\<rparr>) \<and>
           same s_key (s_store g) st \<and> same a_fix (a_store g) ast"
proof -
  let ?g1 = "g\<lparr>s_levels := s_levels g @ [[]]\<rparr>"
  have lv: "Suc l < length (s_levels ?g1)" using sl by simp
  have idx: "py_index (a_levels ?g1) (int (Suc l) - 1) = Some (a_levels g ! l)"
    using al by (simp add: py_index_def Let_def)
  from add_literals_spec [OF lv, of "a_levels g ! l"] obtain st ast where
    e: "add_literals ?g1 (Suc l) (a_levels g ! l) =
           Inr (?g1\<lparr>s_store := st, a_store := ast,
                  s_levels := (s_levels ?g1)
                    [Suc l := set_update s_key (s_store ?g1) (s_levels ?g1 ! Suc l)
                       (concat (map (\<lambda>a. effnodes (a_store ?g1 ! a)) (a_levels g ! l)))]\<rparr>)"
    and s: "same s_key (s_store ?g1) st" and a: "same a_fix (a_store ?g1) ast"
    by blast
  have nth: "(s_levels g @ [[]]) ! Suc l = []"
    using sl by (simp add: nth_append)
  have upd: "(s_levels g @ [[]])[Suc l := x] = s_levels g @ [x]" for x
    using sl by (simp add: list_update_append)
  have "add_literal_level g (Suc l) =
           Inr (g\<lparr>s_store := st, a_store := ast,
                  s_levels := s_levels g @
                    [set_update s_key (s_store g) []
                       (concat (map (\<lambda>a. effnodes (a_store g ! a)) (a_levels g ! l)))]\<rparr>)"
    unfolding add_literal_level_def Let_def idx using e by (simp add: nth upd)
  with s a show ?thesis by auto
qed

subsection \<open>What a set update holds\<close>

lemma set_update_set: "x \<in> set (set_update key st L es) \<Longrightarrow> x \<in> set L \<or> x \<in> set es"
proof (induction es arbitrary: L)
  case Nil
  then show ?case by (simp add: set_update_def)
next
  case (Cons e es)
  from Cons.prems have "x \<in> set (set_update key st (set_add key st L e) es)"
    by (simp add: set_update_Cons)
  from Cons.IH [OF this] show ?case
    by (auto dest: set_add_cases)
qed

lemma set_update_keys:
  "(\<lambda>r. key (st ! r)) ` set (set_update key st L es) =
   (\<lambda>r. key (st ! r)) ` set L \<union> (\<lambda>r. key (st ! r)) ` set es"
proof (induction es arbitrary: L)
  case Nil
  then show ?case by (simp add: set_update_def)
next
  case (Cons e es)
  show ?case
    unfolding set_update_Cons Cons.IH keys_set_add by auto
qed

lemma set_update_distinct: "distinct L \<Longrightarrow> distinct (set_update key st L es)"
  by (induction es arbitrary: L) (simp_all add: set_update_def distinct_set_add)

lemma set_update_inj:
  "inj_on (\<lambda>r. key (st ! r)) (set L) \<Longrightarrow> inj_on (\<lambda>r. key (st ! r)) (set (set_update key st L es))"
  by (induction es arbitrary: L) (simp_all add: set_update_def inj_on_set_add)

lemma a_fix_mutex [simp]: "a_fix (n\<lparr>mutex := m\<rparr>) = a_fix n"
  by (simp add: a_fix_def)

lemma omc_length: "only_mutex_changed st L st' \<Longrightarrow> length st' = length st"
  by (simp add: only_mutex_changed_def)

lemma omc_outside: "only_mutex_changed st L st' \<Longrightarrow> r \<notin> set L \<Longrightarrow> st' ! r = st ! r"
  by (simp add: only_mutex_changed_def)

lemma omc_s_key:
  assumes "only_mutex_changed st L st'"
  shows "s_key (st' ! r) = s_key (st ! r)"
proof -
  from assms obtain m where "st' ! r = (st ! r)\<lparr>mutex := m\<rparr>"
    unfolding only_mutex_changed_def by blast
  then show ?thesis by simp
qed

lemma omc_a_fix:
  assumes "only_mutex_changed ast L ast'"
  shows "a_fix (ast' ! r) = a_fix (ast ! r)"
proof -
  from assms obtain m where "ast' ! r = (ast ! r)\<lparr>mutex := m\<rparr>"
    unfolding only_mutex_changed_def by blast
  then show ?thesis by simp
qed

lemma a_fix_a_key: "a_fix n = a_fix n' \<Longrightarrow> a_key n = a_key n'"
  by (simp add: a_fix_def a_key_def)

lemma level_ok_bound: "level_ok key st L \<Longrightarrow> r \<in> set L \<Longrightarrow> r < length st"
  by (simp add: level_ok_def)

text \<open>A level that lies below a bound is untouched when nodes above the bound change.\<close>

lemma level_ok_omc:
  assumes ok: "level_ok key st L" and c: "only_mutex_changed st L' st'"
    and dis: "\<And>r. r \<in> set L \<Longrightarrow> r \<notin> set L'"
  shows "level_ok key st' L"
proof (rule level_ok_cong [OF ok])
  show "length st \<le> length st'" using omc_length [OF c] by simp
  show "\<forall>r \<in> set L. key (st' ! r) = key (st ! r)"
    using omc_outside [OF c] dis by simp
  show "\<forall>r \<in> set L. mutex (st' ! r) = mutex (st ! r)"
    using omc_outside [OF c] dis by simp
qed

lemma level_ok_same_s:
  assumes ok: "level_ok s_key st L" and s: "same s_key st st'"
  shows "level_ok s_key st' L"
proof (rule level_ok_cong [OF ok])
  show "length st \<le> length st'" using same_length [OF s] by simp
  show "\<forall>r \<in> set L. s_key (st' ! r) = s_key (st ! r)" using same_s_key [OF s] by simp
  show "\<forall>r \<in> set L. mutex (st' ! r) = mutex (st ! r)" using same_mutex [OF s] by simp
qed

lemma level_ok_same_a:
  assumes ok: "level_ok a_key ast L" and s: "same a_fix ast ast'"
  shows "level_ok a_key ast' L"
proof (rule level_ok_cong [OF ok])
  show "length ast \<le> length ast'" using same_length [OF s] by simp
  show "\<forall>r \<in> set L. a_key (ast' ! r) = a_key (ast ! r)" using same_a_key [OF s] by simp
  show "\<forall>r \<in> set L. mutex (ast' ! r) = mutex (ast ! r)" using same_mutex [OF s] by simp
qed

lemma loop_step:
  assumes inv: "loop_inv g level"
  shows "\<exists>g1 g3. add_action_level g level = Inr g1 \<and> level < length (a_levels g1) \<and>
           add_literal_level (update_a_mutex g1 (a_levels g1 ! level)) (level + 1) = Inr g3 \<and>
           level + 1 < length (s_levels g3) \<and>
           step_ok g level (update_s_mutex g3 (s_levels g3 ! (level + 1)))"
proof -
  let ?n0 = "length (s_store g)" and ?m0 = "length (a_store g)"
  let ?prev = "s_levels g ! level"
  let ?ok = "\<lambda>act. act \<in> set (all_actions g) \<and> preconds_hold (s_store g) ?prev act"
  from inv have sl: "length (s_levels g) = Suc level" and al: "length (a_levels g) = level"
    and ok_s: "\<And>L. L \<in> set (s_levels g) \<Longrightarrow> level_ok s_key (s_store g) L"
    and ok_a: "\<And>L. L \<in> set (a_levels g) \<Longrightarrow> level_ok a_key (a_store g) L"
    by (simp_all add: loop_inv_def graph_ok_def)
  have prev_in: "?prev \<in> set (s_levels g)" using sl by simp
  have pv: "set ?prev \<subseteq> {..<length (s_store g)}"
    using level_ok_bound [OF ok_s [OF prev_in]] by auto
  have sl_lt: "level < length (s_levels g)" using sl by simp

  \<comment> \<open>the action level\<close>
  from add_action_level_spec [OF al sl_lt pv] obtain g1 L where
    e1: "add_action_level g level = Inr g1" and ext: "extends g g1"
    and sl1: "s_levels g1 = s_levels g" and al1: "a_levels g1 = a_levels g @ [L]"
    and new: "a_level_new ?n0 ?m0 ?ok (s_store g1) (a_store g1) L"
    and cov: "\<forall>act \<in> set (all_actions g). preconds_hold (s_store g) ?prev act \<longrightarrow>
              act_key act \<in> (\<lambda>r. a_key (a_store g1 ! r)) ` set L"
    by blast
  from ext have gs: "grows s_key (s_store g) (s_store g1)"
    and ga: "grows a_fix (a_store g) (a_store g1)"
    and flds: "problem g1 = problem g" "fs_pos g1 = fs_pos g" "fs_neg g1 = fs_neg g"
      "serial g1 = serial g" "all_actions g1 = all_actions g" "goal_states g1 = goal_states g"
    by (simp_all add: extends_def)
  have lvL: "a_levels g1 ! level = L" using al1 al by (simp add: nth_append)
  have lt1: "level < length (a_levels g1)" using al1 al by simp
  from new have dL: "distinct L" and injL: "inj_on (\<lambda>r. a_key (a_store g1 ! r)) (set L)"
    and nn: "\<And>a. a \<in> set L \<Longrightarrow> node_new ?n0 ?m0 ?ok (s_store g1) (a_store g1) a"
    by (simp_all add: a_level_new_def)
  have Lb: "?m0 \<le> a \<and> a < length (a_store g1)" if "a \<in> set L" for a
    using nn [OF that] by (simp add: node_new_def)
  have Lm: "mutex (a_store g1 ! a) = []" if "a \<in> set L" for a
    using ga Lb [OF that] by (simp add: grows_def)
  have okL: "level_ok a_key (a_store g1) L"
    by (rule level_ok_fresh [OF dL injL]) (use Lb Lm in blast)
  have old_a1: "level_ok a_key (a_store g1) L'" if "L' \<in> set (a_levels g)" for L'
    by (rule level_ok_grows [OF ok_a [OF that] ga]) (rule a_fix_a_key)
  have old_s1: "level_ok s_key (s_store g1) L'" if "L' \<in> set (s_levels g)" for L'
    by (rule level_ok_grows [OF ok_s [OF that] gs]) simp

  \<comment> \<open>its mutexes\<close>
  from update_a_mutex_spec [OF okL] obtain ast2 where
    e2: "update_a_mutex g1 L = g1\<lparr>a_store := ast2\<rparr>" and okL2: "level_ok a_key ast2 L"
    and omc2: "only_mutex_changed (a_store g1) L ast2"
    by blast
  let ?g2 = "g1\<lparr>a_store := ast2\<rparr>"
  have old_a2: "level_ok a_key ast2 L'" if "L' \<in> set (a_levels g)" for L'
  proof (rule level_ok_omc [OF old_a1 [OF that] omc2])
    fix r assume "r \<in> set L'"
    from level_ok_bound [OF ok_a [OF that] this] have "r < ?m0" .
    with Lb show "r \<notin> set L" by fastforce
  qed
  have fix2: "a_fix (ast2 ! r) = a_fix (a_store g1 ! r)" for r
    by (rule omc_a_fix [OF omc2])
  have eff2: "effnodes (ast2 ! r) = effnodes (a_store g1 ! r)" for r
    using fix2 [of r] by (simp add: a_fix_def)

  \<comment> \<open>the literal level\<close>
  have sl2: "length (s_levels ?g2) = Suc level" using sl1 sl by simp
  have al2: "level < length (a_levels ?g2)" using lt1 by simp
  let ?effs = "concat (map (\<lambda>a. effnodes (a_store g1 ! a)) L)"
  let ?N = "set_update s_key (s_store g1) [] ?effs"
  from add_literal_level_spec [OF sl2 al2] obtain st3 ast3 where
    e3: "add_literal_level ?g2 (Suc level) =
           Inr (?g2\<lparr>s_store := st3, a_store := ast3, s_levels := s_levels g @ [?N]\<rparr>)"
    and ss: "same s_key (s_store g1) st3" and sa: "same a_fix ast2 ast3"
    by (auto simp: lvL eff2 sl1)
  let ?g3 = "?g2\<lparr>s_store := st3, a_store := ast3, s_levels := s_levels g @ [?N]\<rparr>"
  have Nb: "?n0 \<le> x \<and> x < length (s_store g1)" if "x \<in> set ?N" for x
  proof -
    from set_update_set [OF that] have "x \<in> set ?effs" by simp
    then obtain a where a: "a \<in> set L" "x \<in> set (effnodes (a_store g1 ! a))" by auto
    from nn [OF a(1)] a(2) show ?thesis by (simp add: node_new_def)
  qed
  have Nm: "mutex (st3 ! x) = []" if "x \<in> set ?N" for x
  proof -
    from Nb [OF that] gs have "mutex (s_store g1 ! x) = []" by (simp add: grows_def)
    then show ?thesis by (simp add: same_mutex [OF ss])
  qed
  have dN: "distinct ?N" by (rule set_update_distinct) simp
  have "inj_on (\<lambda>r. s_key (s_store g1 ! r)) (set ?N)" by (rule set_update_inj) simp
  then have injN: "inj_on (\<lambda>r. s_key (st3 ! r)) (set ?N)"
    by (simp add: same_s_key [OF ss])
  have okN: "level_ok s_key st3 ?N"
    by (rule level_ok_fresh [OF dN injN]) (use Nb Nm same_length [OF ss] in auto)
  have old_s3: "level_ok s_key st3 L'" if "L' \<in> set (s_levels g)" for L'
    by (rule level_ok_same_s [OF old_s1 [OF that] ss])
  have all_a3: "level_ok a_key ast3 L'" if "L' \<in> set (a_levels g @ [L])" for L'
  proof -
    from that have "level_ok a_key ast2 L'" using old_a2 okL2 by auto
    then show ?thesis by (rule level_ok_same_a [OF _ sa])
  qed

  \<comment> \<open>its mutexes\<close>
  have okN3: "level_ok s_key (s_store ?g3) ?N" using okN by simp
  from update_s_mutex_spec [OF okN3] obtain st4 where
    e4: "update_s_mutex ?g3 ?N = ?g3\<lparr>s_store := st4\<rparr>" and okN4: "level_ok s_key st4 ?N"
    and omc4: "only_mutex_changed st3 ?N st4"
    by auto
  let ?g4 = "?g3\<lparr>s_store := st4\<rparr>"
  have old_s4: "level_ok s_key st4 L'" if "L' \<in> set (s_levels g)" for L'
  proof (rule level_ok_omc [OF old_s3 [OF that] omc4])
    fix r assume "r \<in> set L'"
    from level_ok_bound [OF ok_s [OF that] this] have "r < ?n0" .
    with Nb show "r \<notin> set ?N" by fastforce
  qed
  have key4: "s_key (st4 ! r) = s_key (s_store g1 ! r)" for r
    using omc_s_key [OF omc4, of r] same_s_key [OF ss, of r] by simp
  have len4: "length st4 = length (s_store g1)"
    using omc_length [OF omc4] same_length [OF ss] by simp

  \<comment> \<open>the state after the round\<close>
  have inv4: "loop_inv ?g4 (Suc level)"
    unfolding loop_inv_def graph_ok_def
    using sl al al1 old_s4 okN4 all_a3 by auto
  have keeps4: "keeps g ?g4"
    unfolding keeps_def using flds key4 len4 gs by (simp add: grows_def)
  have take4: "take (Suc level) (s_levels ?g4) = s_levels g"
    using sl by simp
  have lvN: "s_levels ?g4 ! Suc level = ?N" using sl by (simp add: nth_append)
  have skN: "skeys st4 ?N = (\<Union>a \<in> set L. eff_lits (action (a_store g1 ! a)))"
  proof -
    have "skeys st4 ?N = skeys (s_store g1) ?N"
      by (simp add: skeys_def key4)
    also have "\<dots> = skeys (s_store g1) ?effs"
      using set_update_keys [of s_key "s_store g1" "[]" ?effs] by (simp add: skeys_def)
    also have "\<dots> = (\<Union>a \<in> set L. skeys (s_store g1) (effnodes (a_store g1 ! a)))"
      by (auto simp: skeys_def)
    also have "\<dots> = (\<Union>a \<in> set L. eff_lits (action (a_store g1 ! a)))"
      using nn by (simp add: node_new_def)
    finally show ?thesis .
  qed
  have S1: "\<forall>x \<in> skeys (s_store ?g4) (s_levels ?g4 ! Suc level).
         \<exists>act \<in> set (all_actions g). preconds_hold (s_store g) ?prev act \<and> x \<in> eff_lits act"
  proof
    fix x assume "x \<in> skeys (s_store ?g4) (s_levels ?g4 ! Suc level)"
    then have "x \<in> (\<Union>a \<in> set L. eff_lits (action (a_store g1 ! a)))"
      unfolding lvN using skN by simp
    then obtain a where a: "a \<in> set L" "x \<in> eff_lits (action (a_store g1 ! a))" by blast
    from nn [OF a(1)] have "?ok (action (a_store g1 ! a))" by (simp add: node_new_def)
    with a(2) show "\<exists>act \<in> set (all_actions g). preconds_hold (s_store g) ?prev act \<and> x \<in> eff_lits act"
      by blast
  qed
  have S2: "\<forall>act \<in> set (all_actions g). preconds_hold (s_store g) ?prev act \<longrightarrow>
         (\<exists>act' \<in> set (all_actions g). act_key act' = act_key act \<and>
            eff_lits act' \<subseteq> skeys (s_store ?g4) (s_levels ?g4 ! Suc level))"
  proof (intro ballI impI)
    fix act assume "act \<in> set (all_actions g)" "preconds_hold (s_store g) ?prev act"
    with cov obtain a where a: "a \<in> set L" "a_key (a_store g1 ! a) = act_key act" by auto
    let ?act' = "action (a_store g1 ! a)"
    from nn [OF a(1)] have p: "is_persistent (a_store g1 ! a) = (pre_lits ?act' = eff_lits ?act')"
      and o: "?act' \<in> set (all_actions g)"
      by (simp_all add: node_new_def)
    from a_key_act_key [OF p] a(2) have "act_key ?act' = act_key act" by simp
    moreover have "eff_lits ?act' \<subseteq> skeys (s_store ?g4) (s_levels ?g4 ! Suc level)"
      unfolding lvN using skN a(1) by auto
    ultimately show "\<exists>act' \<in> set (all_actions g). act_key act' = act_key act \<and>
            eff_lits act' \<subseteq> skeys (s_store ?g4) (s_levels ?g4 ! Suc level)"
      using o by blast
  qed
  have step: "step_ok g level ?g4"
    unfolding step_ok_def using inv4 keeps4 take4 S1 S2 by blast

  have E2: "update_a_mutex g1 (a_levels g1 ! level) = ?g2" using e2 lvL by simp
  have E3: "add_literal_level (update_a_mutex g1 (a_levels g1 ! level)) (level + 1) = Inr ?g3"
    unfolding E2 using e3 by simp
  have lt3: "level + 1 < length (s_levels ?g3)" using sl by simp
  have lv3: "s_levels ?g3 ! (level + 1) = ?N" using sl by (simp add: nth_append)
  have E4: "update_s_mutex ?g3 (s_levels ?g3 ! (level + 1)) = ?g4"
    unfolding lv3 using e4 by simp
  from e1 lt1 E3 lt3 step show ?thesis
    unfolding E4 [symmetric] by blast
qed

subsection \<open>The initial literal level\<close>

lemma initial_level:
  fixes st :: "PgNode_s list" and pos neg :: "string list"
  defines "X \<equiv> add_s_nodes st [] pos True"
  defines "Y \<equiv> add_s_nodes (fst X) (snd X) neg False"
  shows "level_ok s_key (fst Y) (snd Y) \<and>
         skeys (fst Y) (snd Y) = Pair True ` set pos \<union> Pair False ` set neg"
proof -
  have vX: "set (snd X) \<subseteq> {..<length (fst X)}"
    unfolding X_def by (rule add_s_nodes_valid) simp
  have dX: "distinct (snd X) \<and> inj_on (\<lambda>r. s_key (fst X ! r)) (set (snd X))"
    unfolding X_def by (rule add_s_nodes_distinct) simp_all
  have dY: "distinct (snd Y) \<and> inj_on (\<lambda>r. s_key (fst Y ! r)) (set (snd Y))"
    unfolding Y_def using dX vX by (intro add_s_nodes_distinct) simp_all
  have vY: "set (snd Y) \<subseteq> {..<length (fst Y)}"
    unfolding Y_def by (rule add_s_nodes_valid [OF vX])
  have store: "fst Y = st @ map (\<lambda>p. new_PgNode_s p True) pos @ map (\<lambda>p. new_PgNode_s p False) neg"
    by (simp add: Y_def X_def add_s_nodes_store)
  have lo: "length st \<le> x" if "x \<in> set (snd Y)" for x
  proof -
    from that have "x \<in> set (snd X) \<or> (length (fst X) \<le> x \<and> x < length (fst X) + length neg)"
      unfolding Y_def by (rule add_s_nodes_refs)
    then show ?thesis
    proof
      assume "x \<in> set (snd X)"
      then have "x \<in> set [] \<or> (length st \<le> x \<and> x < length st + length pos)"
        unfolding X_def by (rule add_s_nodes_refs)
      then show ?thesis by simp
    next
      assume "length (fst X) \<le> x \<and> x < length (fst X) + length neg"
      then show ?thesis by (simp add: X_def add_s_nodes_length)
    qed
  qed
  have mu: "mutex (fst Y ! x) = []" if "x \<in> set (snd Y)" for x
  proof -
    from that vY have "x < length (fst Y)" by auto
    moreover have "fresh_ext st (fst Y)"
      unfolding store by (auto simp: fresh_ext_def)
    then have "grows s_key st (fst Y)" by (rule fresh_ext_grows)
    ultimately show ?thesis using lo [OF that] by (simp add: grows_def)
  qed
  have "level_ok s_key (fst Y) (snd Y)"
    using dY vY mu by (intro level_ok_fresh) auto
  moreover have "skeys (fst X) (snd X) = Pair True ` set pos"
    using add_s_nodes_keys [of "[]" st pos True] by (simp add: X_def skeys_def)
  then have "skeys (fst Y) (snd Y) = Pair True ` set pos \<union> Pair False ` set neg"
    unfolding Y_def using add_s_nodes_keys [OF vX, of neg False] by simp
  ultimately show ?thesis by simp
qed

lemma create_graph_start:
  assumes "s_levels g = []" "a_levels g = []"
  shows "\<exists>st L. create_graph g = level_loop (g\<lparr>s_levels := [L], s_store := st\<rparr>) 0 \<and>
           loop_inv (g\<lparr>s_levels := [L], s_store := st\<rparr>) 0 \<and>
           skeys st L = Pair True ` set (fs_pos g) \<union> Pair False ` set (fs_neg g)"
proof -
  let ?X = "add_s_nodes (s_store g) [] (fs_pos g) True"
  let ?Y = "add_s_nodes (fst ?X) (snd ?X) (fs_neg g) False"
  let ?g = "g\<lparr>s_levels := [snd ?Y], s_store := fst ?Y\<rparr>"
  have "create_graph g = level_loop ?g 0"
    using assms by (simp add: create_graph_def split_beta)
  moreover have "loop_inv ?g 0"
    using initial_level [of "s_store g" "fs_pos g" "fs_neg g"] assms
    by (simp add: loop_inv_def graph_ok_def)
  moreover have "skeys (fst ?Y) (snd ?Y) = Pair True ` set (fs_pos g) \<union> Pair False ` set (fs_neg g)"
    using initial_level [of "s_store g" "fs_pos g" "fs_neg g"] by simp
  ultimately show ?thesis by blast
qed

subsection \<open>The levels of a built graph\<close>

lemma step_ok_inv: "step_ok g level g' \<Longrightarrow> loop_inv g' (Suc level)"
  by (simp add: step_ok_def)

lemma level_loop_graph_ok:
  assumes "level_loop g level = Some r"
  shows "loop_inv g level \<longrightarrow> (\<exists>g'. r = Inr g' \<and> graph_ok g')"
proof (rule level_loop.raw_induct [OF _ assms])
  fix loop g level r
  assume IH: "\<And>g level r. loop g level = Some r \<Longrightarrow>
      loop_inv g level \<longrightarrow> (\<exists>g'. r = Inr g' \<and> graph_ok g')"
    and body: "(case add_action_level g level of
        Inl e \<Rightarrow> Some (Inl e)
      | Inr g1 \<Rightarrow>
          if level < length (a_levels g1) then
            (case add_literal_level (update_a_mutex g1 (a_levels g1 ! level)) (level + 1) of
               Inl e \<Rightarrow> Some (Inl e)
             | Inr g3 \<Rightarrow>
                 if level + 1 < length (s_levels g3) then
                   (let g4 = update_s_mutex g3 (s_levels g3 ! (level + 1))
                    in if set_eq s_key (s_store g4) (s_levels g4 ! (level + 1)) (s_levels g4 ! level)
                       then Some (Inr g4)
                       else loop g4 (level + 1))
                 else Some (Inl (IndexError, g3)))
          else Some (Inl (IndexError, g1))) = Some r"
  show "loop_inv g level \<longrightarrow> (\<exists>g'. r = Inr g' \<and> graph_ok g')"
  proof
    assume inv: "loop_inv g level"
    from loop_step [OF inv] obtain g1 g3 where
      e1: "add_action_level g level = Inr g1" and lt1: "level < length (a_levels g1)"
      and e3: "add_literal_level (update_a_mutex g1 (a_levels g1 ! level)) (level + 1) = Inr g3"
      and lt3: "level + 1 < length (s_levels g3)"
      and st: "step_ok g level (update_s_mutex g3 (s_levels g3 ! (level + 1)))"
      by blast
    let ?g4 = "update_s_mutex g3 (s_levels g3 ! (level + 1))"
    from st have inv4: "loop_inv ?g4 (Suc level)" by (rule step_ok_inv)
    show "\<exists>g'. r = Inr g' \<and> graph_ok g'"
    proof (cases "set_eq s_key (s_store ?g4) (s_levels ?g4 ! (level + 1)) (s_levels ?g4 ! level)")
      case True
      with body e1 lt1 e3 lt3 have "r = Inr ?g4" by (simp add: Let_def)
      with inv4 show ?thesis by (simp add: loop_inv_def)
    next
      case False
      with body e1 lt1 e3 lt3 have "loop ?g4 (level + 1) = Some r" by (simp add: Let_def)
      from IH [OF this] inv4 show ?thesis by simp
    qed
  qed
qed

lemma create_graph_graph_ok:
  assumes "create_graph g = Some (Inr g')"
  shows "graph_ok g'"
proof -
  from assms have e: "s_levels g = []" "a_levels g = []"
    by (auto simp: create_graph_def split: if_splits)
  from create_graph_start [OF e] obtain st L where
    c: "create_graph g = level_loop (g\<lparr>s_levels := [L], s_store := st\<rparr>) 0"
    and i: "loop_inv (g\<lparr>s_levels := [L], s_store := st\<rparr>) 0"
    by blast
  from c assms have "level_loop (g\<lparr>s_levels := [L], s_store := st\<rparr>) 0 = Some (Inr g')" by simp
  from level_loop_graph_ok [OF this] i show ?thesis by auto
qed

lemma new_PlanningGraph_graph_ok:
  assumes "new_PlanningGraph pr pos neg sp = Some (Inr g)"
  shows "graph_ok g"
proof -
  let ?g0 = "\<lparr>problem = pr, fs_pos = pos, fs_neg = neg, serial = sp,
              all_actions = actions_list pr @ noop_actions (state_map pr),
              s_levels = [], a_levels = [], goal_states = [], s_store = [], a_store = []\<rparr>"
  from assms obtain g' where c: "create_graph ?g0 = Some (Inr g')"
    and g: "g = g'\<lparr>s_store := fst (add_s_nodes (s_store g') [] (goal (problem g')) True),
                  goal_states := set_update s_key (fst (add_s_nodes (s_store g') [] (goal (problem g')) True)) []
                     (snd (add_s_nodes (s_store g') [] (goal (problem g')) True))\<rparr>"
    by (auto simp: new_PlanningGraph_def split_beta split: option.splits sum.splits)
  from create_graph_graph_ok [OF c] have ok: "graph_ok g'" .
  have gr: "grows s_key (s_store g') (fst (add_s_nodes (s_store g') [] (goal (problem g')) True))"
    by (rule fresh_ext_grows [OF add_s_nodes_fresh])
  have "level_ok s_key (s_store g) L" if "L \<in> set (s_levels g)" for L
  proof -
    from that ok have "level_ok s_key (s_store g') L" by (simp add: g graph_ok_def)
    from level_ok_grows [OF this gr] show ?thesis by (simp add: g)
  qed
  moreover have "level_ok a_key (a_store g) L" if "L \<in> set (a_levels g)" for L
    using that ok by (simp add: g graph_ok_def)
  ultimately show ?thesis by (simp add: graph_ok_def)
qed

lemma level_ok_is_mutex:
  assumes ok: "level_ok key st L" and a: "a \<in> set L" and b: "b \<in> set L"
  shows "is_mutex key st a b \<longleftrightarrow> b \<in> set (mutex (st ! a))"
proof -
  from ok a have "inj_on (\<lambda>r. key (st ! r)) (set L)" "set (mutex (st ! a)) \<subseteq> set L"
    by (simp_all add: level_ok_def)
  from set_in_level [OF this b] show ?thesis by (simp add: is_mutex_def)
qed

lemma level_ok_symmetric:
  assumes ok: "level_ok key st L" and a: "a \<in> set L" and b: "b \<in> set L"
  shows "is_mutex key st a b = is_mutex key st b a"
proof -
  from ok have sym: "\<And>x y. x \<in> set L \<Longrightarrow> y \<in> set (mutex (st ! x)) \<Longrightarrow> x \<in> set (mutex (st ! y))"
    by (simp add: level_ok_def)
  have "b \<in> set (mutex (st ! a)) \<longleftrightarrow> a \<in> set (mutex (st ! b))"
    using sym [OF a] sym [OF b] by blast
  then show ?thesis
    by (simp add: level_ok_is_mutex [OF ok a b] level_ok_is_mutex [OF ok b a])
qed

lemma level_ok_irreflexive:
  assumes ok: "level_ok key st L" and a: "a \<in> set L"
  shows "\<not> is_mutex key st a a"
  using ok a by (simp add: level_ok_is_mutex [OF ok a a] level_ok_def)

subsection \<open>The pairs that a pair loop marks\<close>

lemma fold_concat_lists: "fold f (concat xss) s = fold (fold f) xss s"
  by (induction xss arbitrary: s) simp_all

lemma mutex_pairs_visited:
  "mutex_pairs test mark nodelist g =
   fold (\<lambda>(n1, n2) g2. if test g2 n1 n2 then mark g2 n1 n2 else g2) (visited nodelist) g"
proof -
  let ?step = "\<lambda>(n1, n2) g2. if test g2 n1 n2 then mark g2 n1 n2 else g2"
  have "(\<lambda>(i, n1) g1. fold (\<lambda>n2 g2. if test g2 n1 n2 then mark g2 n1 n2 else g2)
            (drop (i + 1) nodelist) g1) =
        fold ?step \<circ> (\<lambda>(i, n1). map (Pair n1) (drop (i + 1) nodelist))"
    by (rule ext) (simp add: split_beta fold_map comp_def cong: if_cong)
  then show ?thesis
    by (simp add: mutex_pairs_def visited_def fold_concat_lists fold_map)
qed

lemma visited_iff:
  "(a, b) \<in> set (visited nodelist) \<longleftrightarrow>
   (\<exists>i j. i < j \<and> j < length nodelist \<and> a = nodelist ! i \<and> b = nodelist ! j)"
proof
  assume "(a, b) \<in> set (visited nodelist)"
  then obtain i n1 where x: "(i, n1) \<in> set (enumerate 0 (butlast nodelist))"
    and ab: "(a, b) \<in> set (map (Pair n1) (drop (i + 1) nodelist))"
    by (auto simp: visited_def)
  from x have i: "i < length nodelist" and n1: "n1 = nodelist ! i"
    by (auto simp: in_set_enumerate_eq nth_butlast)
  from ab have a: "a = n1" and b: "b \<in> set (drop (i + 1) nodelist)" by auto
  from b obtain k where k: "k < length nodelist - Suc i" "b = nodelist ! Suc (i + k)"
    by (auto simp: in_set_conv_nth)
  then have "i < Suc (i + k)" "Suc (i + k) < length nodelist" by auto
  with a n1 k(2) show "\<exists>i j. i < j \<and> j < length nodelist \<and> a = nodelist ! i \<and> b = nodelist ! j"
    by blast
next
  assume "\<exists>i j. i < j \<and> j < length nodelist \<and> a = nodelist ! i \<and> b = nodelist ! j"
  then obtain i j where ij: "i < j" "j < length nodelist" and a: "a = nodelist ! i" and b: "b = nodelist ! j"
    by blast
  from ij have "i < length (butlast nodelist)" by simp
  with a have x: "(i, a) \<in> set (enumerate 0 (butlast nodelist))"
    by (simp add: in_set_enumerate_eq nth_butlast)
  from ij have "j - Suc i < length (drop (i + 1) nodelist)" by simp
  moreover from ij have "drop (i + 1) nodelist ! (j - Suc i) = nodelist ! j" by simp
  ultimately have "b \<in> set (drop (i + 1) nodelist)"
    unfolding b by (metis nth_mem)
  then have "(a, b) \<in> set (map (Pair a) (drop (i + 1) nodelist))" by simp
  with x show "(a, b) \<in> set (visited nodelist)"
    unfolding visited_def by force
qed

lemma fold_pairs_exact:
  assumes init: "I g"
    and pres: "\<And>g' n1 n2. I g' \<Longrightarrow> (n1, n2) \<in> set ps \<Longrightarrow> I (mark g' n1 n2)"
    and stable: "\<And>g' n1 n2. I g' \<Longrightarrow> (n1, n2) \<in> set ps \<Longrightarrow> test g' n1 n2 = T n1 n2"
    and eff: "\<And>g' n1 n2 a b. I g' \<Longrightarrow> (n1, n2) \<in> set ps \<Longrightarrow>
        R (mark g' n1 n2) a b = (R g' a b \<or> a = n1 \<and> b = n2 \<or> a = n2 \<and> b = n1)"
  shows "I (fold (\<lambda>(n1, n2) g2. if test g2 n1 n2 then mark g2 n1 n2 else g2) ps g) \<and>
     (\<forall>a b. R (fold (\<lambda>(n1, n2) g2. if test g2 n1 n2 then mark g2 n1 n2 else g2) ps g) a b =
        (R g a b \<or> (\<exists>(n1, n2) \<in> set ps. T n1 n2 \<and> (a = n1 \<and> b = n2 \<or> a = n2 \<and> b = n1))))"
  using assms
proof (induction ps arbitrary: g)
  case Nil
  then show ?case by simp
next
  case (Cons p ps)
  obtain n1 n2 where p: "p = (n1, n2)" by (cases p)
  let ?step = "\<lambda>(n1, n2) g2. if test g2 n1 n2 then mark g2 n1 n2 else g2"
  let ?g1 = "if test g n1 n2 then mark g n1 n2 else g"
  have mem: "(n1, n2) \<in> set (p # ps)" by (simp add: p)
  have t: "test g n1 n2 = T n1 n2" by (rule Cons.prems(3) [OF Cons.prems(1) mem])
  have I1: "I ?g1" using Cons.prems(1) Cons.prems(2) [OF Cons.prems(1) mem] by simp
  have R1: "R ?g1 a b = (R g a b \<or> T n1 n2 \<and> (a = n1 \<and> b = n2 \<or> a = n2 \<and> b = n1))" for a b
    using Cons.prems(4) [OF Cons.prems(1) mem, of a b] t by auto
  have IH: "I (fold ?step ps ?g1) \<and>
     (\<forall>a b. R (fold ?step ps ?g1) a b =
        (R ?g1 a b \<or> (\<exists>(n1, n2) \<in> set ps. T n1 n2 \<and> (a = n1 \<and> b = n2 \<or> a = n2 \<and> b = n1))))"
  proof (rule Cons.IH [OF I1])
    fix g' m1 m2 assume "I g'" "(m1, m2) \<in> set ps"
    then show "I (mark g' m1 m2)" by (intro Cons.prems(2)) simp_all
  next
    fix g' m1 m2 assume "I g'" "(m1, m2) \<in> set ps"
    then show "test g' m1 m2 = T m1 m2" by (intro Cons.prems(3)) simp_all
  next
    fix g' m1 m2 a b assume "I g'" "(m1, m2) \<in> set ps"
    then show "R (mark g' m1 m2) a b = (R g' a b \<or> a = m1 \<and> b = m2 \<or> a = m2 \<and> b = m1)"
      by (intro Cons.prems(4)) simp_all
  qed
  have f: "fold ?step (p # ps) g = fold ?step ps ?g1" by (simp add: p)
  show ?case
    unfolding f
  proof (intro conjI allI)
    show "I (fold ?step ps ?g1)" using IH by simp
    fix a b
    from IH have "R (fold ?step ps ?g1) a b =
        (R ?g1 a b \<or> (\<exists>(n1, n2) \<in> set ps. T n1 n2 \<and> (a = n1 \<and> b = n2 \<or> a = n2 \<and> b = n1)))"
      by blast
    also have "\<dots> = (R g a b \<or>
        (\<exists>(n1, n2) \<in> set (p # ps). T n1 n2 \<and> (a = n1 \<and> b = n2 \<or> a = n2 \<and> b = n1)))"
      unfolding R1 by (auto simp: p)
    finally show "R (fold ?step ps ?g1) a b = (R g a b \<or>
        (\<exists>(n1, n2) \<in> set (p # ps). T n1 n2 \<and> (a = n1 \<and> b = n2 \<or> a = n2 \<and> b = n1)))" .
  qed
qed

subsection \<open>The pairs that \<^verbatim>\<open>update_a_mutex\<close> marks\<close>

lemma a_tests_stable:
  assumes "only_mutex_changed (a_store g) L ast"
  shows "serialize_actions (g\<lparr>a_store := ast\<rparr>) n1 n2 = serialize_actions g n1 n2"
    and "inconsistent_effects_mutex (g\<lparr>a_store := ast\<rparr>) n1 n2 = inconsistent_effects_mutex g n1 n2"
    and "interference_mutex (g\<lparr>a_store := ast\<rparr>) n1 n2 = interference_mutex g n1 n2"
    and "competing_needs_mutex (g\<lparr>a_store := ast\<rparr>) n1 n2 = competing_needs_mutex g n1 n2"
proof -
  have f: "is_persistent (ast ! r) = is_persistent (a_store g ! r) \<and>
           action (ast ! r) = action (a_store g ! r) \<and>
           parents (ast ! r) = parents (a_store g ! r)" for r
  proof -
    from assms obtain m where "ast ! r = (a_store g ! r)\<lparr>mutex := m\<rparr>"
      unfolding only_mutex_changed_def by blast
    then show ?thesis by simp
  qed
  show "serialize_actions (g\<lparr>a_store := ast\<rparr>) n1 n2 = serialize_actions g n1 n2"
    by (simp add: serialize_actions_def f)
  show "inconsistent_effects_mutex (g\<lparr>a_store := ast\<rparr>) n1 n2 = inconsistent_effects_mutex g n1 n2"
    by (simp add: inconsistent_effects_mutex_def f)
  show "interference_mutex (g\<lparr>a_store := ast\<rparr>) n1 n2 = interference_mutex g n1 n2"
    by (simp add: interference_mutex_def f)
  show "competing_needs_mutex (g\<lparr>a_store := ast\<rparr>) n1 n2 = competing_needs_mutex g n1 n2"
    by (simp add: competing_needs_mutex_def f)
qed

lemma update_a_mutex_exact:
  assumes ok: "level_ok a_key (a_store g) L"
  shows "b \<in> set (mutex (a_store (update_a_mutex g L) ! a)) \<longleftrightarrow>
     b \<in> set (mutex (a_store g ! a)) \<or>
     (\<exists>(n1, n2) \<in> set (visited L).
        (serialize_actions g n1 n2 \<or> inconsistent_effects_mutex g n1 n2 \<or>
         interference_mutex g n1 n2 \<or> competing_needs_mutex g n1 n2) \<and>
        (a = n1 \<and> b = n2 \<or> a = n2 \<and> b = n1))"
proof -
  let ?I = "\<lambda>g'. \<exists>ast. g' = g\<lparr>a_store := ast\<rparr> \<and> level_ok a_key ast L \<and>
           only_mutex_changed (a_store g) L ast"
  let ?test = "\<lambda>g n1 n2. serialize_actions g n1 n2 \<or> inconsistent_effects_mutex g n1 n2 \<or>
                  interference_mutex g n1 n2 \<or> competing_needs_mutex g n1 n2"
  let ?mark = "\<lambda>g n1 n2. g\<lparr>a_store := mutexify a_key (a_store g) n1 n2\<rparr>"
  let ?R = "\<lambda>g' a b. b \<in> set (mutex (a_store g' ! a))"
  from ok have d: "distinct L" by (simp add: level_ok_def)
  have pair: "n1 \<in> set L \<and> n2 \<in> set L \<and> n1 \<noteq> n2" if "(n1, n2) \<in> set (visited L)" for n1 n2
  proof -
    from that obtain i j where ij: "i < j" "j < length L" and n: "n1 = L ! i" "n2 = L ! j"
      unfolding visited_iff by blast
    from ij d have "L ! i \<noteq> L ! j" by (simp add: nth_eq_iff_index_eq)
    with ij n show ?thesis by simp
  qed
  have init: "?I g"
  proof -
    have "g = g\<lparr>a_store := a_store g\<rparr>" by simp
    with ok only_mutex_changed_refl [of "a_store g" L] show ?thesis by blast
  qed
  have pres: "?I (?mark g' n1 n2)" if P: "?I g'" and v: "(n1, n2) \<in> set (visited L)" for g' n1 n2
  proof -
    from P obtain ast where g': "g' = g\<lparr>a_store := ast\<rparr>" and lo: "level_ok a_key ast L"
      and omc: "only_mutex_changed (a_store g) L ast"
      by blast
    from pair [OF v] have n1: "n1 \<in> set L" and n2: "n2 \<in> set L" and ne: "n1 \<noteq> n2" by simp_all
    have 1: "level_ok a_key (mutexify a_key ast n1 n2) L"
      by (rule mutexify_level_ok [OF _ lo n1 n2 ne]) simp
    have 2: "only_mutex_changed (a_store g) L (mutexify a_key ast n1 n2)"
      by (rule only_mutex_changed_mutexify [OF omc n1 n2])
    have 3: "?mark g' n1 n2 = g\<lparr>a_store := mutexify a_key ast n1 n2\<rparr>"
      unfolding g' by simp
    from 1 2 3 show ?thesis by blast
  qed
  have stable: "?test g' n1 n2 = ?test g n1 n2" if P: "?I g'" for g' n1 n2
  proof -
    from P obtain ast where g': "g' = g\<lparr>a_store := ast\<rparr>"
      and omc: "only_mutex_changed (a_store g) L ast"
      by blast
    show ?thesis unfolding g' by (simp only: a_tests_stable [OF omc])
  qed
  have eff: "?R (?mark g' n1 n2) a b = (?R g' a b \<or> a = n1 \<and> b = n2 \<or> a = n2 \<and> b = n1)"
    if P: "?I g'" and v: "(n1, n2) \<in> set (visited L)" for g' n1 n2 a b
  proof -
    from P obtain ast where g': "g' = g\<lparr>a_store := ast\<rparr>" and lo: "level_ok a_key ast L"
      by blast
    from pair [OF v] have n1: "n1 \<in> set L" and n2: "n2 \<in> set L" and ne: "n1 \<noteq> n2" by simp_all
    have mm: "set (mutex (mutexify a_key ast n1 n2 ! a)) =
         (if a = n1 then insert n2 (set (mutex (ast ! n1)))
          else if a = n2 then insert n1 (set (mutex (ast ! n2)))
          else set (mutex (ast ! a)))"
      by (rule mutexify_mutex [OF _ lo n1 n2 ne]) simp
    show ?thesis
      unfolding g' using ne by (auto simp: mm)
  qed
  from fold_pairs_exact [where I = ?I and mark = ?mark and test = ?test and R = ?R
      and T = "?test g" and ps = "visited L" and g = g, OF init pres stable eff]
  have "\<forall>a b. ?R (fold (\<lambda>(n1, n2) g2. if ?test g2 n1 n2 then ?mark g2 n1 n2 else g2) (visited L) g) a b =
        (?R g a b \<or> (\<exists>(n1, n2) \<in> set (visited L). ?test g n1 n2 \<and> (a = n1 \<and> b = n2 \<or> a = n2 \<and> b = n1)))"
    by blast
  then show ?thesis
    unfolding update_a_mutex_def mutex_pairs_visited by blast
qed

lemma update_a_mutex_pair:
  assumes ok: "level_ok a_key (a_store g) L" and ij: "i < j" "j < length L"
  defines "t \<equiv> serialize_actions g (L ! i) (L ! j) \<or> inconsistent_effects_mutex g (L ! i) (L ! j) \<or>
         interference_mutex g (L ! i) (L ! j) \<or> competing_needs_mutex g (L ! i) (L ! j)"
  shows "is_mutex a_key (a_store (update_a_mutex g L)) (L ! i) (L ! j) \<longleftrightarrow>
           is_mutex a_key (a_store g) (L ! i) (L ! j) \<or> t"
    and "is_mutex a_key (a_store (update_a_mutex g L)) (L ! j) (L ! i) \<longleftrightarrow>
           is_mutex a_key (a_store g) (L ! j) (L ! i) \<or> t"
proof -
  let ?test = "\<lambda>n1 n2. serialize_actions g n1 n2 \<or> inconsistent_effects_mutex g n1 n2 \<or>
                  interference_mutex g n1 n2 \<or> competing_needs_mutex g n1 n2"
  from ok have d: "distinct L" by (simp add: level_ok_def)
  from ij have a: "L ! i \<in> set L" and b: "L ! j \<in> set L" by simp_all
  from update_a_mutex_spec [OF ok] obtain ast where
    u: "update_a_mutex g L = g\<lparr>a_store := ast\<rparr>" and ok': "level_ok a_key ast L"
    by blast
  then have ok'': "level_ok a_key (a_store (update_a_mutex g L)) L" by simp
  have only: "(\<exists>(n1, n2) \<in> set (visited L). ?test n1 n2 \<and>
        (x = n1 \<and> y = n2 \<or> x = n2 \<and> y = n1)) \<longleftrightarrow> t"
    if xy: "x = L ! i \<and> y = L ! j \<or> x = L ! j \<and> y = L ! i" for x y
  proof
    assume "\<exists>(n1, n2) \<in> set (visited L). ?test n1 n2 \<and> (x = n1 \<and> y = n2 \<or> x = n2 \<and> y = n1)"
    then obtain n1 n2 where v: "(n1, n2) \<in> set (visited L)" and tt: "?test n1 n2"
      and e: "x = n1 \<and> y = n2 \<or> x = n2 \<and> y = n1"
      by blast
    from v obtain i' j' where ij': "i' < j'" "j' < length L" and n: "n1 = L ! i'" "n2 = L ! j'"
      unfolding visited_iff by blast
    from xy e have "{n1, n2} = {L ! i, L ! j}" by auto
    then have "L ! i' = L ! i \<and> L ! j' = L ! j \<or> L ! i' = L ! j \<and> L ! j' = L ! i"
      unfolding n by (auto simp: doubleton_eq_iff)
    with d ij ij' have "i' = i \<and> j' = j \<or> i' = j \<and> j' = i"
      by (simp add: nth_eq_iff_index_eq)
    with ij ij' have "i' = i" "j' = j" by auto
    with tt n show t by (simp add: t_def)
  next
    assume t
    moreover from ij have "(L ! i, L ! j) \<in> set (visited L)" unfolding visited_iff by blast
    ultimately show "\<exists>(n1, n2) \<in> set (visited L). ?test n1 n2 \<and>
        (x = n1 \<and> y = n2 \<or> x = n2 \<and> y = n1)"
      using xy unfolding t_def by blast
  qed
  show "is_mutex a_key (a_store (update_a_mutex g L)) (L ! i) (L ! j) \<longleftrightarrow>
           is_mutex a_key (a_store g) (L ! i) (L ! j) \<or> t"
    unfolding level_ok_is_mutex [OF ok'' a b] level_ok_is_mutex [OF ok a b]
      update_a_mutex_exact [OF ok] using only [of "L ! i" "L ! j"] by simp
  show "is_mutex a_key (a_store (update_a_mutex g L)) (L ! j) (L ! i) \<longleftrightarrow>
           is_mutex a_key (a_store g) (L ! j) (L ! i) \<or> t"
    unfolding level_ok_is_mutex [OF ok'' b a] level_ok_is_mutex [OF ok b a]
      update_a_mutex_exact [OF ok] using only [of "L ! j" "L ! i"] by simp
qed

subsection \<open>The no-op actions carry every literal forward\<close>

lemma noop_actions_mem:
  "f \<in> set fs \<Longrightarrow> noop_for pol f \<in> set (noop_actions fs)"
  by (induction fs) (auto simp: noop_for_def)

lemma noop_actions_shape:
  "act \<in> set (noop_actions fs) \<Longrightarrow> \<exists>pol f. f \<in> set fs \<and> act = noop_for pol f"
proof (induction fs)
  case Nil
  then show ?case by simp
next
  case (Cons x fs)
  from Cons.prems have "act = noop_for True x \<or> act = noop_for False x \<or> act \<in> set (noop_actions fs)"
    by (simp add: noop_for_def)
  then show ?case
  proof (elim disjE)
    assume "act = noop_for True x"
    then have "x \<in> set (x # fs) \<and> act = noop_for True x" by simp
    then show ?thesis by blast
  next
    assume "act = noop_for False x"
    then have "x \<in> set (x # fs) \<and> act = noop_for False x" by simp
    then show ?thesis by blast
  next
    assume "act \<in> set (noop_actions fs)"
    from Cons.IH [OF this] obtain pol f where "f \<in> set fs" "act = noop_for pol f" by blast
    then have "f \<in> set (x # fs) \<and> act = noop_for pol f" by simp
    then show ?thesis by blast
  qed
qed

lemma noop_for_pre: "pre_lits (noop_for pol f) = {(pol, f)}"
  by (simp add: noop_for_def pre_lits_def)

lemma noop_for_eff: "eff_lits (noop_for pol f) = {(pol, f)}"
  by (simp add: noop_for_def eff_lits_def)

lemma noop_for_name: "name (noop_for pol f) = (if pol then ''Noop_pos'' else ''Noop_neg'')"
  by (simp add: noop_for_def)

lemma noop_for_args: "args (noop_for pol f) = [f]"
  by (simp add: noop_for_def)

lemma noop_for_inj:
  assumes "name (noop_for pol' f') = name (noop_for pol f)" "args (noop_for pol' f') = args (noop_for pol f)"
  shows "noop_for pol' f' = noop_for pol f"
proof -
  from assms(2) have "f' = f" by (simp add: noop_for_args)
  moreover from assms(1) have "pol' = pol" by (cases pol; cases pol') (simp_all add: noop_for_name)
  ultimately show ?thesis by simp
qed

lemma level_grows:
  assumes st: "step_ok g level g'"
    and acts: "all_actions g = actions_list pr @ noop_actions (state_map pr)"
    and wf: "well_formed pr"
    and voc: "lits g level \<subseteq> vocab pr"
  shows "lits g level \<subseteq> lits g' (Suc level)"
proof
  fix x assume x: "x \<in> lits g level"
  obtain pol f where xf: "x = (pol, f)" by (cases x)
  from x voc have "(pol, f) \<in> vocab pr" unfolding xf by (rule subsetD [rotated])
  then have f: "f \<in> set (state_map pr)" by (simp add: vocab_def)
  let ?act = "noop_for pol f"
  from noop_actions_mem [OF f] have mem: "?act \<in> set (all_actions g)"
    by (simp add: acts)
  from x have en: "preconds_hold (s_store g) (s_levels g ! level) ?act"
    by (simp add: preconds_hold_def noop_for_pre lits_def xf)
  from st have S2: "\<forall>act \<in> set (all_actions g). preconds_hold (s_store g) (s_levels g ! level) act \<longrightarrow>
         (\<exists>act' \<in> set (all_actions g). act_key act' = act_key act \<and>
            eff_lits act' \<subseteq> skeys (s_store g') (s_levels g' ! Suc level))"
    by (simp add: step_ok_def)
  from S2 [rule_format, OF mem en] obtain act' where a': "act' \<in> set (all_actions g)"
    and k: "act_key act' = act_key ?act"
    and e: "eff_lits act' \<subseteq> skeys (s_store g') (s_levels g' ! Suc level)"
    by blast
  from k have nm: "name act' = name ?act" and ar: "args act' = args ?act"
    by (simp_all add: act_key_def)
  have "act' \<notin> set (actions_list pr)"
  proof
    assume "act' \<in> set (actions_list pr)"
    with wf have "name act' \<noteq> ''Noop_pos'' \<and> name act' \<noteq> ''Noop_neg''"
      by (simp add: well_formed_def)
    with nm show False by (cases pol) (simp_all add: noop_for_name)
  qed
  with a' have "act' \<in> set (noop_actions (state_map pr))" by (simp add: acts)
  from noop_actions_shape [OF this] obtain pol' f' where n: "act' = noop_for pol' f'"
    by blast
  from nm ar have "act' = ?act"
    unfolding n by (rule noop_for_inj)
  with e have "(pol, f) \<in> skeys (s_store g') (s_levels g' ! Suc level)"
    by (simp add: noop_for_eff)
  then show "x \<in> lits g' (Suc level)" by (simp add: lits_def xf)
qed

lemma level_bounded:
  assumes st: "step_ok g level g'"
    and acts: "all_actions g = actions_list pr @ noop_actions (state_map pr)"
    and wf: "well_formed pr"
  shows "lits g' (Suc level) \<subseteq> vocab pr"
proof
  fix x assume x: "x \<in> lits g' (Suc level)"
  from st have S1: "\<forall>x \<in> skeys (s_store g') (s_levels g' ! Suc level).
         \<exists>act \<in> set (all_actions g).
           preconds_hold (s_store g) (s_levels g ! level) act \<and> x \<in> eff_lits act"
    by (simp add: step_ok_def)
  from x have "x \<in> skeys (s_store g') (s_levels g' ! Suc level)" by (simp add: lits_def)
  from S1 [rule_format, OF this] obtain act where a: "act \<in> set (all_actions g)"
    and xe: "x \<in> eff_lits act"
    by blast
  from a have "act \<in> set (actions_list pr) \<or> act \<in> set (noop_actions (state_map pr))"
    by (simp add: acts)
  then show "x \<in> vocab pr"
  proof
    assume "act \<in> set (actions_list pr)"
    with wf have sub: "set (effect_add act) \<union> set (effect_rem act) \<subseteq> set (state_map pr)"
      by (simp add: well_formed_def)
    from xe have "snd x \<in> set (effect_add act) \<union> set (effect_rem act)"
      unfolding eff_lits_def by auto
    with sub have "snd x \<in> set (state_map pr)" by (rule subsetD)
    then show ?thesis by (cases x) (simp add: vocab_def)
  next
    assume "act \<in> set (noop_actions (state_map pr))"
    from noop_actions_shape [OF this] obtain pol f where "f \<in> set (state_map pr)" "act = noop_for pol f"
      by blast
    with xe show ?thesis by (simp add: noop_for_eff vocab_def)
  qed
qed

lemma old_levels_stay:
  assumes st: "step_ok g level g'" and inv: "loop_inv g level" and k: "k \<le> level"
  shows "lits g' k = lits g k"
proof -
  from st have tk: "take (Suc level) (s_levels g') = s_levels g" and kp: "keeps g g'"
    by (simp_all add: step_ok_def)
  from inv have len: "length (s_levels g) = Suc level" and ok: "graph_ok g"
    by (simp_all add: loop_inv_def)
  from k have "take (Suc level) (s_levels g') ! k = s_levels g' ! k" by simp
  then have eq: "s_levels g' ! k = s_levels g ! k" by (simp add: tk)
  from k len have "s_levels g ! k \<in> set (s_levels g)" by simp
  with ok have lo: "level_ok s_key (s_store g) (s_levels g ! k)" by (simp add: graph_ok_def)
  from kp have old: "\<forall>r < length (s_store g). s_key (s_store g' ! r) = s_key (s_store g ! r)"
    by (simp add: keeps_def)
  show ?thesis
    unfolding lits_def eq skeys_def
  proof (rule image_cong [OF refl])
    fix r assume "r \<in> set (s_levels g ! k)"
    from level_ok_bound [OF lo this] have "r < length (s_store g)" .
    with old show "s_key (s_store g' ! r) = s_key (s_store g ! r)" by simp
  qed
qed

subsection \<open>Counting the literals of a level\<close>

lemma card_vocab: "card (vocab pr) = 2 * card (set (state_map pr))"
  by (simp add: vocab_def card_cartesian_product)

lemma finite_vocab: "finite (vocab pr)"
  by (simp add: vocab_def)

lemma chain_card:
  fixes A :: "nat \<Rightarrow> 'a set"
  assumes "finite (A n)" "\<forall>k < n. A k \<subset> A (Suc k)"
  shows "card (A 0) + n \<le> card (A n)"
  using assms
proof (induction n)
  case 0
  show ?case by simp
next
  case (Suc n)
  from Suc.prems(2) have sub: "A n \<subset> A (Suc n)" by simp
  from sub have "A n \<subseteq> A (Suc n)" by (rule psubset_imp_subset)
  with Suc.prems(1) have fin: "finite (A n)" by (rule rev_finite_subset)
  from Suc.prems(2) have "\<forall>k < n. A k \<subset> A (Suc k)" by simp
  from Suc.IH [OF fin this] have "card (A 0) + n \<le> card (A n)" .
  moreover from psubset_card_mono [OF Suc.prems(1) sub] have "card (A n) < card (A (Suc n))" .
  ultimately show ?case by simp
qed

lemma climbing_level:
  assumes "climbing g level"
  shows "level \<le> card (set (state_map (problem g)))"
proof -
  from assms have sub: "lits g level \<subseteq> vocab (problem g)"
    and ch: "\<forall>k < level. lits g k \<subset> lits g (Suc k)"
    and c0: "card (set (state_map (problem g))) \<le> card (lits g 0)"
    by (simp_all add: climbing_def)
  from finite_vocab sub have fin: "finite (lits g level)" by (rule rev_finite_subset)
  from chain_card [of "lits g", OF fin ch] have "card (lits g 0) + level \<le> card (lits g level)" .
  moreover from card_mono [OF finite_vocab sub] have "card (lits g level) \<le> 2 * card (set (state_map (problem g)))"
    by (simp add: card_vocab)
  ultimately show ?thesis using c0 by simp
qed

subsection \<open>The loop returns\<close>

lemma level_loop_round:
  assumes inv: "loop_inv g level"
  shows "\<exists>g4. step_ok g level g4 \<and>
     level_loop g level =
       (if set_eq s_key (s_store g4) (s_levels g4 ! Suc level) (s_levels g4 ! level)
        then Some (Inr g4) else level_loop g4 (Suc level))"
proof -
  from loop_step [OF inv] obtain g1 g3 where
    e1: "add_action_level g level = Inr g1" and lt1: "level < length (a_levels g1)"
    and e3: "add_literal_level (update_a_mutex g1 (a_levels g1 ! level)) (level + 1) = Inr g3"
    and lt3: "level + 1 < length (s_levels g3)"
    and st: "step_ok g level (update_s_mutex g3 (s_levels g3 ! (level + 1)))"
    by blast
  have "level_loop g level =
      (if set_eq s_key (s_store (update_s_mutex g3 (s_levels g3 ! (level + 1))))
            (s_levels (update_s_mutex g3 (s_levels g3 ! (level + 1))) ! (level + 1))
            (s_levels (update_s_mutex g3 (s_levels g3 ! (level + 1))) ! level)
       then Some (Inr (update_s_mutex g3 (s_levels g3 ! (level + 1))))
       else level_loop (update_s_mutex g3 (s_levels g3 ! (level + 1))) (level + 1))"
    apply (subst level_loop.simps)
    apply (simp only: e1 sum.case lt1 if_True e3 lt3 Let_def)
    done
  with st show ?thesis
    by (intro exI [of _ "update_s_mutex g3 (s_levels g3 ! (level + 1))"]) simp
qed

lemma level_loop_terminates:
  assumes "climbing g level"
  shows "\<exists>g' m. level_loop g level = Some (Inr g') \<and> loop_inv g' (Suc m) \<and>
           problem g' = problem g \<and> level \<le> m \<and> levelled g' m"
  using assms
proof (induction "Suc (card (set (state_map (problem g)))) - level" arbitrary: g level rule: less_induct)
  case less
  note cl = less.prems
  from cl have inv: "loop_inv g level" by (simp add: climbing_def)
  from cl have acts: "all_actions g = actions_list (problem g) @ noop_actions (state_map (problem g))"
    by (simp add: climbing_def)
  from cl have wf: "well_formed (problem g)" by (simp add: climbing_def)
  from cl have voc: "lits g level \<subseteq> vocab (problem g)" by (simp add: climbing_def)
  from cl have ch: "\<forall>k < level. lits g k \<subset> lits g (Suc k)" by (simp add: climbing_def)
  from cl have c0: "card (set (state_map (problem g))) \<le> card (lits g 0)" by (simp add: climbing_def)
  from level_loop_round [OF inv] obtain g4 where st4: "step_ok g level g4"
    and unf: "level_loop g level =
       (if set_eq s_key (s_store g4) (s_levels g4 ! Suc level) (s_levels g4 ! level)
        then Some (Inr g4) else level_loop g4 (Suc level))"
    by blast
  from st4 have inv4: "loop_inv g4 (Suc level)" by (simp add: step_ok_def)
  from st4 have kp: "keeps g g4" by (simp add: step_ok_def)
  from kp have pr4: "problem g4 = problem g" by (simp add: keeps_def)
  from kp have acts4: "all_actions g4 = all_actions g" by (simp add: keeps_def)
  have old: "lits g4 k = lits g k" if "k \<le> level" for k
    using old_levels_stay [OF st4 inv that] .
  have mono: "lits g level \<subseteq> lits g4 (Suc level)"
    by (rule level_grows [OF st4 acts wf voc])
  have bnd: "lits g4 (Suc level) \<subseteq> vocab (problem g)"
    by (rule level_bounded [OF st4 acts wf])
  have ch4: "lits g4 k \<subset> lits g4 (Suc k)" if "k < level" for k
  proof -
    from that ch have "lits g k \<subset> lits g (Suc k)" by simp
    moreover from that have "lits g4 k = lits g k" by (intro old) simp
    moreover from that have "lits g4 (Suc k) = lits g (Suc k)" by (intro old) simp
    ultimately show ?thesis by simp
  qed
  have test: "set_eq s_key (s_store g4) (s_levels g4 ! Suc level) (s_levels g4 ! level) \<longleftrightarrow>
      lits g4 (Suc level) = lits g4 level"
    by (simp add: set_eq_skeys lits_def)
  from climbing_level [OF cl] have lv: "level \<le> card (set (state_map (problem g)))" .
  show ?case
  proof (cases "lits g4 (Suc level) = lits g4 level")
    case True
    with unf test have r: "level_loop g level = Some (Inr g4)" by simp
    from inv4 have "length (s_levels g4) = level + 2" by (simp add: loop_inv_def)
    with ch4 True lv have "levelled g4 level" by (simp add: levelled_def pr4)
    with r inv4 pr4 have "level_loop g level = Some (Inr g4) \<and> loop_inv g4 (Suc level) \<and>
           problem g4 = problem g \<and> level \<le> level \<and> levelled g4 level"
      by simp
    then show ?thesis by blast
  next
    case False
    with unf test have r: "level_loop g level = level_loop g4 (Suc level)" by simp
    from mono have "lits g4 level \<subseteq> lits g4 (Suc level)" by (simp add: old)
    with False have strict: "lits g4 level \<subset> lits g4 (Suc level)" by blast
    have ch4': "\<forall>k < Suc level. lits g4 k \<subset> lits g4 (Suc k)"
    proof (intro allI impI)
      fix k assume "k < Suc level"
      then have "k < level \<or> k = level" by (simp add: less_Suc_eq)
      then show "lits g4 k \<subset> lits g4 (Suc k)"
      proof
        assume "k < level" then show ?thesis by (rule ch4)
      next
        assume "k = level" with strict show ?thesis by simp
      qed
    qed
    from c0 have c04: "card (set (state_map (problem g4))) \<le> card (lits g4 0)"
      by (simp add: pr4 old)
    from acts have acts4': "all_actions g4 = actions_list (problem g4) @ noop_actions (state_map (problem g4))"
      by (simp add: pr4 acts4)
    from wf have wf4: "well_formed (problem g4)" by (simp add: pr4)
    from bnd have bnd4: "lits g4 (Suc level) \<subseteq> vocab (problem g4)" by (simp add: pr4)
    have cl4: "climbing g4 (Suc level)"
      unfolding climbing_def by (intro conjI inv4 acts4' wf4 bnd4 ch4' c04)
    from climbing_level [OF cl4] have "Suc level \<le> card (set (state_map (problem g)))"
      by (simp add: pr4)
    then have "Suc (card (set (state_map (problem g4)))) - Suc level
        < Suc (card (set (state_map (problem g)))) - level"
      by (simp add: pr4)
    from less.hyps [OF this cl4] obtain g' m where
      res: "level_loop g4 (Suc level) = Some (Inr g') \<and> loop_inv g' (Suc m) \<and>
           problem g' = problem g4 \<and> Suc level \<le> m \<and> levelled g' m"
      by blast
    then have "level_loop g level = Some (Inr g') \<and> loop_inv g' (Suc m) \<and>
           problem g' = problem g \<and> level \<le> m \<and> levelled g' m"
      by (simp add: r pr4)
    then show ?thesis by blast
  qed
qed

subsection \<open>The constructor returns\<close>

lemma goal_nodes_lits:
  assumes ok: "graph_ok g" and k: "k < length (s_levels g)"
  shows "lits (g\<lparr>s_store := fst (add_s_nodes (s_store g) [] ps pol), goal_states := gs\<rparr>) k = lits g k"
proof -
  from k have "s_levels g ! k \<in> set (s_levels g)" by simp
  with ok have lo: "level_ok s_key (s_store g) (s_levels g ! k)" by (simp add: graph_ok_def)
  have v: "set (s_levels g ! k) \<subseteq> {..<length (s_store g)}"
  proof
    fix r assume "r \<in> set (s_levels g ! k)"
    from level_ok_bound [OF lo this] show "r \<in> {..<length (s_store g)}" by simp
  qed
  have gr: "grows s_key (s_store g) (fst (add_s_nodes (s_store g) [] ps pol))"
    by (rule fresh_ext_grows [OF add_s_nodes_fresh])
  from grows_skeys [OF gr v] show ?thesis by (simp add: lits_def)
qed

lemma start_climbing:
  assumes wf: "well_formed (problem g)"
    and acts: "all_actions g = actions_list (problem g) @ noop_actions (state_map (problem g))"
    and cover: "set (fs_pos g) \<union> set (fs_neg g) = set (state_map (problem g))"
    and inv: "loop_inv (g\<lparr>s_levels := [L], s_store := st\<rparr>) 0"
    and keys: "skeys st L = Pair True ` set (fs_pos g) \<union> Pair False ` set (fs_neg g)"
  shows "climbing (g\<lparr>s_levels := [L], s_store := st\<rparr>) 0"
proof -
  let ?g = "g\<lparr>s_levels := [L], s_store := st\<rparr>"
  have l0: "lits ?g 0 = Pair True ` set (fs_pos g) \<union> Pair False ` set (fs_neg g)"
    by (simp add: lits_def keys)
  have sub: "lits ?g 0 \<subseteq> vocab (problem ?g)"
  proof
    fix x assume "x \<in> lits ?g 0"
    then have "snd x \<in> set (fs_pos g) \<union> set (fs_neg g)" unfolding l0 by auto
    then have "snd x \<in> set (state_map (problem g))" by (simp only: cover)
    then show "x \<in> vocab (problem ?g)" by (cases x) (simp add: vocab_def)
  qed
  have "snd ` lits ?g 0 = set (fs_pos g) \<union> set (fs_neg g)"
    unfolding l0 by (simp add: image_Un image_image)
  then have im: "snd ` lits ?g 0 = set (state_map (problem g))" by (simp only: cover)
  have fin: "finite (lits ?g 0)" unfolding l0 by simp
  from card_image_le [OF fin, of snd] have c: "card (set (state_map (problem ?g))) \<le> card (lits ?g 0)"
    by (simp add: im)
  have a: "all_actions ?g = actions_list (problem ?g) @ noop_actions (state_map (problem ?g))"
    by (simp add: acts)
  have w: "well_formed (problem ?g)" by (simp add: wf)
  have ch: "\<forall>k < (0::nat). lits ?g k \<subset> lits ?g (Suc k)" by simp
  show ?thesis
    unfolding climbing_def by (intro conjI inv a w sub ch c)
qed

lemma create_graph_returns:
  assumes e: "s_levels g = []" "a_levels g = []"
    and wf: "well_formed (problem g)"
    and acts: "all_actions g = actions_list (problem g) @ noop_actions (state_map (problem g))"
    and cover: "set (fs_pos g) \<union> set (fs_neg g) = set (state_map (problem g))"
  shows "\<exists>g' m. create_graph g = Some (Inr g') \<and> loop_inv g' (Suc m) \<and>
           problem g' = problem g \<and> levelled g' m"
proof -
  from create_graph_start [OF e] obtain st L where
    c: "create_graph g = level_loop (g\<lparr>s_levels := [L], s_store := st\<rparr>) 0"
    and i: "loop_inv (g\<lparr>s_levels := [L], s_store := st\<rparr>) 0"
    and k: "skeys st L = Pair True ` set (fs_pos g) \<union> Pair False ` set (fs_neg g)"
    by blast
  from level_loop_terminates [OF start_climbing [OF wf acts cover i k]]
  obtain g' m where "level_loop (g\<lparr>s_levels := [L], s_store := st\<rparr>) 0 = Some (Inr g') \<and>
      loop_inv g' (Suc m) \<and> problem g' = problem (g\<lparr>s_levels := [L], s_store := st\<rparr>) \<and>
      0 \<le> m \<and> levelled g' m"
    by blast
  then have "create_graph g = Some (Inr g') \<and> loop_inv g' (Suc m) \<and>
           problem g' = problem g \<and> levelled g' m"
    by (simp add: c)
  then show ?thesis by blast
qed

lemma new_PlanningGraph_returns:
  assumes wf: "well_formed pr" and cover: "set pos \<union> set neg = set (state_map pr)"
  shows "\<exists>g m. new_PlanningGraph pr pos neg sp = Some (Inr g) \<and> problem g = pr \<and> levelled g m"
proof -
  let ?g0 = "\<lparr>problem = pr, fs_pos = pos, fs_neg = neg, serial = sp,
              all_actions = actions_list pr @ noop_actions (state_map pr),
              s_levels = [], a_levels = [], goal_states = [], s_store = [], a_store = []\<rparr>"
  have "\<exists>g' m. create_graph ?g0 = Some (Inr g') \<and> loop_inv g' (Suc m) \<and>
           problem g' = problem ?g0 \<and> levelled g' m"
    by (rule create_graph_returns) (simp_all add: wf cover)
  then obtain g' m where c: "create_graph ?g0 = Some (Inr g')" and inv: "loop_inv g' (Suc m)"
    and pr: "problem g' = pr" and lv: "levelled g' m"
    by auto
  let ?st = "fst (add_s_nodes (s_store g') [] (goal (problem g')) True)"
  let ?gs = "set_update s_key ?st [] (snd (add_s_nodes (s_store g') [] (goal (problem g')) True))"
  let ?g = "g'\<lparr>s_store := ?st, goal_states := ?gs\<rparr>"
  have r: "new_PlanningGraph pr pos neg sp = Some (Inr ?g)"
    by (simp add: new_PlanningGraph_def c split_beta)
  from inv have ok: "graph_ok g'" by (simp add: loop_inv_def)
  from lv have len: "length (s_levels g') = m + 2" by (simp add: levelled_def)
  have same: "lits ?g k = lits g' k" if "k < m + 2" for k
  proof (rule goal_nodes_lits [OF ok])
    from that show "k < length (s_levels g')" by (simp add: len)
  qed
  have "levelled ?g m"
    unfolding levelled_def
  proof (intro conjI allI impI)
    show "length (s_levels ?g) = m + 2" by (simp add: len)
    show "lits ?g (Suc m) = lits ?g m" using lv by (simp add: same levelled_def)
    show "m \<le> card (set (state_map (problem ?g)))" using lv by (simp add: levelled_def)
    fix k assume k: "k < m"
    with lv have "lits g' k \<subset> lits g' (Suc k)" by (simp add: levelled_def)
    with k show "lits ?g k \<subset> lits ?g (Suc k)" by (simp add: same)
  qed
  with r pr have "new_PlanningGraph pr pos neg sp = Some (Inr ?g) \<and> problem ?g = pr \<and> levelled ?g m"
    by simp
  then show ?thesis by blast
qed

section \<open>The level-off loop terminates\<close>

text \<open>
  Claim C6, as the code has it. Let the effects of every action of the problem be fluents of
  \<^verbatim>\<open>state_map\<close>, let no action of the problem bear the name of a no-op, and let the initial
  state decide every fluent of \<^verbatim>\<open>state_map\<close>. Then the constructor returns a graph. With \<open>V\<close>
  the length of \<^verbatim>\<open>state_map\<close>, the graph has at least two and at most \<open>V + 2\<close> literal levels,
  which is at most \<open>V * 2 + 1\<close> when there is a fluent at all. Every literal level but the
  last is a proper subset of the next one, as sets of literals, and the last two are equal.
\<close>

theorem level_off_terminates:
  assumes "well_formed pr" and "set pos \<union> set neg = set (state_map pr)"
  shows "\<exists>g. new_PlanningGraph pr pos neg sp = Some (Inr g) \<and>
     2 \<le> length (s_levels g) \<and> length (s_levels g) \<le> length (state_map pr) + 2 \<and>
     (state_map pr \<noteq> [] \<longrightarrow> length (s_levels g) \<le> length (state_map pr) * 2 + 1) \<and>
     (\<forall>k. Suc (Suc k) < length (s_levels g) \<longrightarrow> lits g k \<subset> lits g (Suc k)) \<and>
     lits g (length (s_levels g) - 1) = lits g (length (s_levels g) - 2)"
proof -
  from new_PlanningGraph_returns [OF assms, of sp] obtain g m where
    r: "new_PlanningGraph pr pos neg sp = Some (Inr g)" and pr: "problem g = pr"
    and lv: "levelled g m"
    by blast
  from lv have len: "length (s_levels g) = m + 2"
    and ch: "\<forall>k < m. lits g k \<subset> lits g (Suc k)"
    and eq: "lits g (Suc m) = lits g m"
    and m: "m \<le> card (set (state_map pr))"
    by (simp_all add: levelled_def pr)
  from m card_length [of "state_map pr"] have mV: "m \<le> length (state_map pr)" by simp
  have 1: "2 \<le> length (s_levels g)" by (simp add: len)
  have 2: "length (s_levels g) \<le> length (state_map pr) + 2" using mV by (simp add: len)
  have 3: "state_map pr \<noteq> [] \<longrightarrow> length (s_levels g) \<le> length (state_map pr) * 2 + 1"
  proof
    assume "state_map pr \<noteq> []"
    then have "1 \<le> length (state_map pr)" by (cases "state_map pr") simp_all
    with mV show "length (s_levels g) \<le> length (state_map pr) * 2 + 1" by (simp add: len)
  qed
  have 4: "\<forall>k. Suc (Suc k) < length (s_levels g) \<longrightarrow> lits g k \<subset> lits g (Suc k)"
    using ch by (simp add: len)
  have 5: "lits g (length (s_levels g) - 1) = lits g (length (s_levels g) - 2)"
    using eq by (simp add: len)
  from r 1 2 3 4 5 show ?thesis by blast
qed

text \<open>
  The switch has one fluent: its graph has the three literal levels that the bound allows,
  and the last two hold the same literals.
\<close>

theorem level_off_terminates_witness:
  "\<exists>g. new_PlanningGraph switch_problem [''P''] [] True = Some (Inr g) \<and>
       2 \<le> length (s_levels g) \<and> length (s_levels g) \<le> 3 \<and>
       lits g (length (s_levels g) - 1) = lits g (length (s_levels g) - 2)"
proof -
  have wf: "well_formed switch_problem"
    by (simp add: well_formed_def switch_problem_def)
  have cover: "set [''P''] \<union> set [] = set (state_map switch_problem)"
    by (simp add: switch_problem_def)
  have len: "length (state_map switch_problem) + 2 = 3"
    by (simp add: switch_problem_def)
  from level_off_terminates [OF wf cover, of True] obtain g where
    "new_PlanningGraph switch_problem [''P''] [] True = Some (Inr g)"
    "2 \<le> length (s_levels g)" "length (s_levels g) \<le> length (state_map switch_problem) + 2"
    "lits g (length (s_levels g) - 1) = lits g (length (s_levels g) - 2)"
    by blast
  then show ?thesis
    unfolding len by blast
qed

text \<open>
  The problem without fluents: the first round adds a second literal level before the two
  are compared, so the graph has two literal levels, one more than \<open>V * 2 + 1\<close> for \<open>V = 0\<close>.
\<close>

theorem level_off_bound_counterexample:
  "\<exists>g. new_PlanningGraph empty_problem [] [] True = Some (Inr g) \<and>
       length (state_map empty_problem) = 0 \<and> length (s_levels g) = 2 \<and>
       length (state_map empty_problem) * 2 + 1 < length (s_levels g)"
proof -
  have "case new_PlanningGraph empty_problem [] [] True of
          Some (Inr g) \<Rightarrow> length (s_levels g) = 2 | _ \<Rightarrow> False"
    by code_simp
  then obtain g where "new_PlanningGraph empty_problem [] [] True = Some (Inr g)"
    "length (s_levels g) = 2"
    by (auto split: option.splits sum.splits)
  then show ?thesis
    by (simp add: empty_problem_def)
qed

text \<open>
  Why no action of the problem may bear the name of a no-op: the action \<open>Noop_pos(P)\<close> of
  this problem, which needs and adds \<open>Q\<close>, is equal as an action node to the no-op of \<open>P\<close>
  and comes first in the action list, so the no-op never enters the action level and \<open>P\<close>,
  which holds in the first literal level, is missing in the second.
\<close>

lemma shadowed_noop_loses_literal:
  "\<exists>g. new_PlanningGraph shadow_problem [''P'', ''Q''] [] True = Some (Inr g) \<and>
       (True, ''P'') \<in> lits g 0 \<and> (True, ''P'') \<notin> lits g 1"
proof -
  have "case new_PlanningGraph shadow_problem [''P'', ''Q''] [] True of
          Some (Inr g) \<Rightarrow>
            map (\<lambda>r. s_key (s_store g ! r)) (s_levels g ! 0) = [(True, ''P''), (True, ''Q'')] \<and>
            map (\<lambda>r. s_key (s_store g ! r)) (s_levels g ! 1) = [(True, ''Q'')]
        | _ \<Rightarrow> False"
    by code_simp
  then obtain g where g: "new_PlanningGraph shadow_problem [''P'', ''Q''] [] True = Some (Inr g)"
    and l0: "map (\<lambda>r. s_key (s_store g ! r)) (s_levels g ! 0) = [(True, ''P''), (True, ''Q'')]"
    and l1: "map (\<lambda>r. s_key (s_store g ! r)) (s_levels g ! 1) = [(True, ''Q'')]"
    by (auto split: option.splits sum.splits)
  have "lits g 0 = set (map (\<lambda>r. s_key (s_store g ! r)) (s_levels g ! 0))"
    and "lits g 1 = set (map (\<lambda>r. s_key (s_store g ! r)) (s_levels g ! 1))"
    by (simp_all add: lits_def skeys_def)
  then have "(True, ''P'') \<in> lits g 0" and "(True, ''P'') \<notin> lits g 1"
    unfolding l0 l1 by simp_all
  with g show ?thesis by blast
qed

section \<open>The serial rule marks the pairs of actions that are not persistent\<close>

lemma pair_start_entry:
  "create_graph \<lparr>problem = pair_problem, fs_pos = [], fs_neg = [''P'', ''Q''], serial = sp,
      all_actions = actions_list pair_problem @ noop_actions (state_map pair_problem),
      s_levels = [], a_levels = [], goal_states = [], s_store = [], a_store = []\<rparr> =
   level_loop (pair_start sp) 0"
  by (simp add: create_graph_def pair_start_def Let_def set_add_def set_in_def s_key_def
      new_PgNode_s_def)

text \<open>
  Claim C7. The action node built from a synthesized no-op action is persistent. And
  \<^verbatim>\<open>update_a_mutex\<close>, run on an action level \<open>L\<close>, leaves two different nodes of the level
  mutex, in both directions, exactly when they were mutex before, or the graph is serial and
  neither of the two is persistent, or one of the three other rules holds of the pair. So
  the serial rule marks the pairs without a persistent node in a serial graph, a pair with a
  persistent node is mutex only by another rule, and in a graph that is not serial the
  serial rule marks no pair. The level is a Python set whose mutex sets are symmetric and
  stay inside the level (\<open>level_ok\<close>), as the construction has it; \<open>i < j\<close> is the order in
  which the loop meets the two nodes.
\<close>

theorem noop_persistent_serial_marks:
  assumes "level_ok a_key (a_store g) L" and "i < j" and "j < length L"
  shows "(\<forall>act \<in> set (noop_actions literal_list). is_persistent (snd (new_PgNode_a st act))) \<and>
    (is_mutex a_key (a_store (update_a_mutex g L)) (L ! i) (L ! j) \<longleftrightarrow>
       is_mutex a_key (a_store g) (L ! i) (L ! j) \<or>
       (serial g \<and> \<not> is_persistent (a_store g ! (L ! i)) \<and> \<not> is_persistent (a_store g ! (L ! j))) \<or>
       inconsistent_effects_mutex g (L ! i) (L ! j) \<or> interference_mutex g (L ! i) (L ! j) \<or>
       competing_needs_mutex g (L ! i) (L ! j)) \<and>
    (is_mutex a_key (a_store (update_a_mutex g L)) (L ! j) (L ! i) \<longleftrightarrow>
       is_mutex a_key (a_store g) (L ! j) (L ! i) \<or>
       (serial g \<and> \<not> is_persistent (a_store g ! (L ! i)) \<and> \<not> is_persistent (a_store g ! (L ! j))) \<or>
       inconsistent_effects_mutex g (L ! i) (L ! j) \<or> interference_mutex g (L ! i) (L ! j) \<or>
       competing_needs_mutex g (L ! i) (L ! j))"
proof -
  have s: "serialize_actions g (L ! i) (L ! j) \<longleftrightarrow>
      serial g \<and> \<not> is_persistent (a_store g ! (L ! i)) \<and> \<not> is_persistent (a_store g ! (L ! j))"
    by (simp add: serialize_actions_def)
  from update_a_mutex_pair [OF assms] noop_is_persistent [of _ literal_list st]
  show ?thesis
    unfolding s by blast
qed

text \<open>
  The first round of the construction for two actions \<open>A1\<close> and \<open>A2\<close> without
  preconditions that add \<open>P\<close> and \<open>Q\<close>: the action level holds \<open>A1\<close>, \<open>A2\<close> and the no-ops of
  \<open>\<not>P\<close> and \<open>\<not>Q\<close>. In the serial graph \<open>A1\<close> and \<open>A2\<close> are mutex afterwards and \<open>A1\<close> and the
  no-op of \<open>\<not>Q\<close> are not; in the graph that is not serial \<open>A1\<close> and \<open>A2\<close> are not mutex.
  The graphs that the constructor returns for this problem show the same.
\<close>

theorem noop_persistent_serial_marks_witness:
  "(\<exists>g1. add_action_level (pair_start True) 0 = Inr g1 \<and> a_levels g1 ! 0 = [0, 1, 2, 3] \<and>
      action (a_store g1 ! 3) \<in> set (noop_actions [''P'', ''Q'']) \<and>
      is_persistent (snd (new_PgNode_a [] (action (a_store g1 ! 3)))) \<and>
      is_persistent (a_store g1 ! 3) \<and>
      is_mutex a_key (a_store (update_a_mutex g1 [0, 1, 2, 3])) 0 1 \<and>
      is_mutex a_key (a_store (update_a_mutex g1 [0, 1, 2, 3])) 1 0 \<and>
      \<not> is_mutex a_key (a_store (update_a_mutex g1 [0, 1, 2, 3])) 0 3 \<and>
      \<not> is_mutex a_key (a_store (update_a_mutex g1 [0, 1, 2, 3])) 3 0) \<and>
   (\<exists>h1. add_action_level (pair_start False) 0 = Inr h1 \<and> a_levels h1 ! 0 = [0, 1, 2, 3] \<and>
      \<not> is_mutex a_key (a_store (update_a_mutex h1 [0, 1, 2, 3])) 0 1 \<and>
      \<not> is_mutex a_key (a_store (update_a_mutex h1 [0, 1, 2, 3])) 1 0) \<and>
   (\<exists>g. new_PlanningGraph pair_problem [] [''P'', ''Q''] True = Some (Inr g) \<and>
      a_levels g ! 0 = [0, 1, 2, 3] \<and>
      is_mutex a_key (a_store g) 0 1 \<and> is_mutex a_key (a_store g) 1 0 \<and>
      \<not> is_mutex a_key (a_store g) 0 3 \<and> \<not> is_mutex a_key (a_store g) 3 0) \<and>
   (\<exists>h. new_PlanningGraph pair_problem [] [''P'', ''Q''] False = Some (Inr h) \<and>
      a_levels h ! 0 = [0, 1, 2, 3] \<and>
      \<not> is_mutex a_key (a_store h) 0 1 \<and> \<not> is_mutex a_key (a_store h) 1 0)"
proof -
  have "case new_PlanningGraph pair_problem [] [''P'', ''Q''] True of
          Some (Inr g) \<Rightarrow>
            a_levels g ! 0 = [0, 1, 2, 3] \<and>
            is_mutex a_key (a_store g) 0 1 \<and> is_mutex a_key (a_store g) 1 0 \<and>
            \<not> is_mutex a_key (a_store g) 0 3 \<and> \<not> is_mutex a_key (a_store g) 3 0
        | _ \<Rightarrow> False"
    by code_simp
  then have built: "\<exists>g. new_PlanningGraph pair_problem [] [''P'', ''Q''] True = Some (Inr g) \<and>
      a_levels g ! 0 = [0, 1, 2, 3] \<and>
      is_mutex a_key (a_store g) 0 1 \<and> is_mutex a_key (a_store g) 1 0 \<and>
      \<not> is_mutex a_key (a_store g) 0 3 \<and> \<not> is_mutex a_key (a_store g) 3 0"
    by (auto split: option.splits sum.splits)
  have "case new_PlanningGraph pair_problem [] [''P'', ''Q''] False of
          Some (Inr h) \<Rightarrow>
            a_levels h ! 0 = [0, 1, 2, 3] \<and>
            \<not> is_mutex a_key (a_store h) 0 1 \<and> \<not> is_mutex a_key (a_store h) 1 0
        | _ \<Rightarrow> False"
    by code_simp
  then have built': "\<exists>h. new_PlanningGraph pair_problem [] [''P'', ''Q''] False = Some (Inr h) \<and>
      a_levels h ! 0 = [0, 1, 2, 3] \<and>
      \<not> is_mutex a_key (a_store h) 0 1 \<and> \<not> is_mutex a_key (a_store h) 1 0"
    by (auto split: option.splits sum.splits)
  have "case add_action_level (pair_start True) 0 of
          Inr g1 \<Rightarrow>
            a_levels g1 = [[0, 1, 2, 3]] \<and>
            distinct (map (\<lambda>r. a_key (a_store g1 ! r)) [0, 1, 2, 3]) \<and>
            (\<forall>a \<in> set [0, 1, 2, 3]. a < length (a_store g1) \<and> mutex (a_store g1 ! a) = []) \<and>
            action (a_store g1 ! 3) \<in> set (noop_actions [''P'', ''Q'']) \<and>
            serial g1 \<and> \<not> is_persistent (a_store g1 ! 0) \<and> \<not> is_persistent (a_store g1 ! 1) \<and>
            is_persistent (a_store g1 ! 3) \<and>
            \<not> is_mutex a_key (a_store g1) 0 3 \<and> \<not> is_mutex a_key (a_store g1) 3 0 \<and>
            \<not> inconsistent_effects_mutex g1 0 3 \<and> \<not> interference_mutex g1 0 3 \<and>
            \<not> competing_needs_mutex g1 0 3
        | _ \<Rightarrow> False"
    by code_simp
  then obtain g1 where g1: "add_action_level (pair_start True) 0 = Inr g1"
    and al: "a_levels g1 = [[0, 1, 2, 3]]"
    and dk: "distinct (map (\<lambda>r. a_key (a_store g1 ! r)) [0, 1, 2, 3])"
    and fr: "\<forall>a \<in> set [0, 1, 2, 3]. a < length (a_store g1) \<and> mutex (a_store g1 ! a) = []"
    and no: "action (a_store g1 ! 3) \<in> set (noop_actions [''P'', ''Q''])"
    and se: "serial g1" "\<not> is_persistent (a_store g1 ! 0)" "\<not> is_persistent (a_store g1 ! 1)"
    and p3: "is_persistent (a_store g1 ! 3)"
    and q: "\<not> is_mutex a_key (a_store g1) 0 3" "\<not> is_mutex a_key (a_store g1) 3 0"
      "\<not> inconsistent_effects_mutex g1 0 3" "\<not> interference_mutex g1 0 3"
      "\<not> competing_needs_mutex g1 0 3"
    by (auto split: sum.splits)
  from dk have "distinct [0, 1, 2, 3::nat] \<and> inj_on (\<lambda>r. a_key (a_store g1 ! r)) (set [0, 1, 2, 3])"
    unfolding distinct_map .
  then have lo: "level_ok a_key (a_store g1) [0, 1, 2, 3]"
    using fr by (intro level_ok_fresh) blast+
  have n: "[0, 1, 2, 3] ! 0 = (0::nat)" "[0, 1, 2, 3] ! 1 = (1::nat)" "[0, 1, 2, 3] ! 3 = (3::nat)"
    by simp_all
  have c01: "(0::nat) < 1" "(1::nat) < length [0, 1, 2, 3::nat]"
    and c03: "(0::nat) < 3" "(3::nat) < length [0, 1, 2, 3::nat]"
    by simp_all
  note t01 = noop_persistent_serial_marks
    [where literal_list = "[''P'', ''Q'']" and st = "[]", OF lo c01, unfolded n]
  note t03 = noop_persistent_serial_marks
    [where literal_list = "[''P'', ''Q'']" and st = "[]", OF lo c03, unfolded n]
  from t01 se have m01: "is_mutex a_key (a_store (update_a_mutex g1 [0, 1, 2, 3])) 0 1"
    "is_mutex a_key (a_store (update_a_mutex g1 [0, 1, 2, 3])) 1 0"
    by simp_all
  from t03 p3 q have m03: "\<not> is_mutex a_key (a_store (update_a_mutex g1 [0, 1, 2, 3])) 0 3"
    "\<not> is_mutex a_key (a_store (update_a_mutex g1 [0, 1, 2, 3])) 3 0"
    by simp_all
  from t01 [THEN conjunct1, rule_format, OF no]
  have pn: "is_persistent (snd (new_PgNode_a [] (action (a_store g1 ! 3))))" .
  have "case add_action_level (pair_start False) 0 of
          Inr h1 \<Rightarrow>
            a_levels h1 = [[0, 1, 2, 3]] \<and>
            distinct (map (\<lambda>r. a_key (a_store h1 ! r)) [0, 1, 2, 3]) \<and>
            (\<forall>a \<in> set [0, 1, 2, 3]. a < length (a_store h1) \<and> mutex (a_store h1 ! a) = []) \<and>
            \<not> serial h1 \<and>
            \<not> is_mutex a_key (a_store h1) 0 1 \<and> \<not> is_mutex a_key (a_store h1) 1 0 \<and>
            \<not> inconsistent_effects_mutex h1 0 1 \<and> \<not> interference_mutex h1 0 1 \<and>
            \<not> competing_needs_mutex h1 0 1
        | _ \<Rightarrow> False"
    by code_simp
  then obtain h1 where h1: "add_action_level (pair_start False) 0 = Inr h1"
    and al': "a_levels h1 = [[0, 1, 2, 3]]"
    and dk': "distinct (map (\<lambda>r. a_key (a_store h1 ! r)) [0, 1, 2, 3])"
    and fr': "\<forall>a \<in> set [0, 1, 2, 3]. a < length (a_store h1) \<and> mutex (a_store h1 ! a) = []"
    and ns: "\<not> serial h1"
    and q': "\<not> is_mutex a_key (a_store h1) 0 1" "\<not> is_mutex a_key (a_store h1) 1 0"
      "\<not> inconsistent_effects_mutex h1 0 1" "\<not> interference_mutex h1 0 1"
      "\<not> competing_needs_mutex h1 0 1"
    by (auto split: sum.splits)
  from dk' have "distinct [0, 1, 2, 3::nat] \<and> inj_on (\<lambda>r. a_key (a_store h1 ! r)) (set [0, 1, 2, 3])"
    unfolding distinct_map .
  then have lo': "level_ok a_key (a_store h1) [0, 1, 2, 3]"
    using fr' by (intro level_ok_fresh) blast+
  note u01 = noop_persistent_serial_marks
    [where literal_list = "[''P'', ''Q'']" and st = "[]", OF lo' c01, unfolded n]
  from u01 ns q' have k01: "\<not> is_mutex a_key (a_store (update_a_mutex h1 [0, 1, 2, 3])) 0 1"
    "\<not> is_mutex a_key (a_store (update_a_mutex h1 [0, 1, 2, 3])) 1 0"
    by simp_all
  from g1 al no pn p3 m01 m03 have first: "\<exists>g1. add_action_level (pair_start True) 0 = Inr g1 \<and>
      a_levels g1 ! 0 = [0, 1, 2, 3] \<and>
      action (a_store g1 ! 3) \<in> set (noop_actions [''P'', ''Q'']) \<and>
      is_persistent (snd (new_PgNode_a [] (action (a_store g1 ! 3)))) \<and>
      is_persistent (a_store g1 ! 3) \<and>
      is_mutex a_key (a_store (update_a_mutex g1 [0, 1, 2, 3])) 0 1 \<and>
      is_mutex a_key (a_store (update_a_mutex g1 [0, 1, 2, 3])) 1 0 \<and>
      \<not> is_mutex a_key (a_store (update_a_mutex g1 [0, 1, 2, 3])) 0 3 \<and>
      \<not> is_mutex a_key (a_store (update_a_mutex g1 [0, 1, 2, 3])) 3 0"
    by simp
  from h1 al' k01 have second: "\<exists>h1. add_action_level (pair_start False) 0 = Inr h1 \<and>
      a_levels h1 ! 0 = [0, 1, 2, 3] \<and>
      \<not> is_mutex a_key (a_store (update_a_mutex h1 [0, 1, 2, 3])) 0 1 \<and>
      \<not> is_mutex a_key (a_store (update_a_mutex h1 [0, 1, 2, 3])) 1 0"
    by simp
  from first second built built' show ?thesis
    by (intro conjI)
qed

section \<open>Symmetry and irreflexivity of the mutex relation\<close>

text \<open>
  Claim C8. In a graph that the constructor returns, the mutex relation is symmetric at every
  level: for two nodes \<open>a\<close> and \<open>b\<close> of one action level, or of one literal level, the mutex
  set of \<open>a\<close> contains \<open>b\<close> exactly when the mutex set of \<open>b\<close> contains \<open>a\<close>. Containment is
  that of the Python set, \<^verbatim>\<open>is_mutex\<close>, under the identity of the nodes of the level.
\<close>

theorem mutex_symmetric:
  assumes "new_PlanningGraph pr pos neg sp = Some (Inr g)"
  shows "(\<forall>L \<in> set (a_levels g). \<forall>a \<in> set L. \<forall>b \<in> set L.
      is_mutex a_key (a_store g) a b = is_mutex a_key (a_store g) b a) \<and>
   (\<forall>L \<in> set (s_levels g). \<forall>a \<in> set L. \<forall>b \<in> set L.
      is_mutex s_key (s_store g) a b = is_mutex s_key (s_store g) b a)"
proof -
  from new_PlanningGraph_graph_ok [OF assms] have ok: "graph_ok g" .
  have A: "is_mutex a_key (a_store g) a b = is_mutex a_key (a_store g) b a"
    if "L \<in> set (a_levels g)" "a \<in> set L" "b \<in> set L" for L a b
  proof -
    from ok that(1) have "level_ok a_key (a_store g) L" by (simp add: graph_ok_def)
    from level_ok_symmetric [OF this that(2) that(3)] show ?thesis .
  qed
  have S: "is_mutex s_key (s_store g) a b = is_mutex s_key (s_store g) b a"
    if "L \<in> set (s_levels g)" "a \<in> set L" "b \<in> set L" for L a b
  proof -
    from ok that(1) have "level_ok s_key (s_store g) L" by (simp add: graph_ok_def)
    from level_ok_symmetric [OF this that(2) that(3)] show ?thesis .
  qed
  from A S show ?thesis by blast
qed

text \<open>
  In the graph of the switch the actions \<open>Off\<close> and the no-op of \<open>P\<close> of the first action
  level are mutex, and so are the literals \<open>P\<close> and \<open>\<not>P\<close> of the second literal level, in
  both directions.
\<close>

theorem mutex_symmetric_witness:
  "\<exists>g. new_PlanningGraph switch_problem [''P''] [] True = Some (Inr g) \<and>
       is_mutex a_key (a_store g) 0 1 \<and> is_mutex a_key (a_store g) 1 0 \<and>
       is_mutex s_key (s_store g) 3 7 \<and> is_mutex s_key (s_store g) 7 3"
proof -
  have "case new_PlanningGraph switch_problem [''P''] [] True of
          Some (Inr g) \<Rightarrow> a_levels g = [[0, 1], [2, 3, 4, 5]] \<and> s_levels g = [[0], [3, 7], [11, 14]] \<and>
            is_mutex a_key (a_store g) 0 1 \<and> is_mutex s_key (s_store g) 3 7
        | _ \<Rightarrow> False"
    by code_simp
  then obtain g where g: "new_PlanningGraph switch_problem [''P''] [] True = Some (Inr g)"
    and a: "a_levels g = [[0, 1], [2, 3, 4, 5]]" and s: "s_levels g = [[0], [3, 7], [11, 14]]"
    and m: "is_mutex a_key (a_store g) 0 1" "is_mutex s_key (s_store g) 3 7"
    by (auto split: option.splits sum.splits)
  have La: "[0, 1] \<in> set (a_levels g)" "0 \<in> set [0, 1::nat]" "1 \<in> set [0, 1::nat]"
    by (simp_all add: a)
  have Ls: "[3, 7] \<in> set (s_levels g)" "3 \<in> set [3, 7::nat]" "7 \<in> set [3, 7::nat]"
    by (simp_all add: s)
  from mutex_symmetric [OF g, THEN conjunct1, rule_format, OF La] m(1)
  have "is_mutex a_key (a_store g) 1 0" by blast
  moreover from mutex_symmetric [OF g, THEN conjunct2, rule_format, OF Ls] m(2)
  have "is_mutex s_key (s_store g) 7 3" by blast
  ultimately show ?thesis using g m by blast
qed

text \<open>
  Claim C10. In a graph that the constructor returns, no node of an action level or of a
  literal level has in its mutex set a node equal to itself under the identity of the nodes
  of the level.
\<close>

theorem mutex_irreflexive:
  assumes "new_PlanningGraph pr pos neg sp = Some (Inr g)"
  shows "(\<forall>L \<in> set (a_levels g). \<forall>a \<in> set L. \<not> is_mutex a_key (a_store g) a a) \<and>
   (\<forall>L \<in> set (s_levels g). \<forall>a \<in> set L. \<not> is_mutex s_key (s_store g) a a)"
proof -
  from new_PlanningGraph_graph_ok [OF assms] have ok: "graph_ok g" .
  have A: "\<not> is_mutex a_key (a_store g) a a"
    if "L \<in> set (a_levels g)" "a \<in> set L" for L a
  proof -
    from ok that(1) have "level_ok a_key (a_store g) L" by (simp add: graph_ok_def)
    from level_ok_irreflexive [OF this that(2)] show ?thesis .
  qed
  have S: "\<not> is_mutex s_key (s_store g) a a"
    if "L \<in> set (s_levels g)" "a \<in> set L" for L a
  proof -
    from ok that(1) have "level_ok s_key (s_store g) L" by (simp add: graph_ok_def)
    from level_ok_irreflexive [OF this that(2)] show ?thesis .
  qed
  from A S show ?thesis by blast
qed

text \<open>
  In the graph of the switch neither the action \<open>Off\<close> of the first action level nor the
  literal \<open>\<not>P\<close> of the second literal level is mutex with itself.
\<close>

theorem mutex_irreflexive_witness:
  "\<exists>g. new_PlanningGraph switch_problem [''P''] [] True = Some (Inr g) \<and>
       a_levels g ! 0 = [0, 1] \<and> s_levels g ! 1 = [3, 7] \<and>
       \<not> is_mutex a_key (a_store g) 0 0 \<and> \<not> is_mutex s_key (s_store g) 3 3"
proof -
  have "case new_PlanningGraph switch_problem [''P''] [] True of
          Some (Inr g) \<Rightarrow> a_levels g = [[0, 1], [2, 3, 4, 5]] \<and> s_levels g = [[0], [3, 7], [11, 14]]
        | _ \<Rightarrow> False"
    by code_simp
  then obtain g where g: "new_PlanningGraph switch_problem [''P''] [] True = Some (Inr g)"
    and a: "a_levels g = [[0, 1], [2, 3, 4, 5]]" and s: "s_levels g = [[0], [3, 7], [11, 14]]"
    by (auto split: option.splits sum.splits)
  have La: "[0, 1] \<in> set (a_levels g)" "0 \<in> set [0, 1::nat]"
    by (simp_all add: a)
  have Ls: "[3, 7] \<in> set (s_levels g)" "3 \<in> set [3, 7::nat]"
    by (simp_all add: s)
  from mutex_irreflexive [OF g, THEN conjunct1, rule_format, OF La]
  have "\<not> is_mutex a_key (a_store g) 0 0" .
  moreover from mutex_irreflexive [OF g, THEN conjunct2, rule_format, OF Ls]
  have "\<not> is_mutex s_key (s_store g) 3 3" .
  ultimately show ?thesis using g a s by simp
qed

end
